theory Spec2Isabelle
  imports Main "HOL-Library.Word"
begin

unbundle bit_operations_syntax

section \<open>Typed arrays over array buffers\<close>

text \<open>
  The encryption code works on \<^verbatim>\<open>Uint8Array\<close> values. A typed array is a view
  (buffer, byteOffset, length) on an \<^verbatim>\<open>ArrayBuffer\<close>; two views may share one buffer,
  and \<^verbatim>\<open>parseEncryptedContainer\<close> addresses the buffer behind the view it is given.
  The store of buffers is therefore explicit: a heap is the list of the buffers
  allocated so far, and a buffer is addressed by its position in that list.
\<close>

type_synonym byte = "8 word"
type_synonym heap = "byte list list"

record u8array =
  buffer :: nat
  byteOffset :: nat
  byteLength :: nat

datatype js_error = RangeError | TypeError | SyntaxError

definition wf_array :: "heap \<Rightarrow> u8array \<Rightarrow> bool" where
  "wf_array h a \<longleftrightarrow>
     buffer a < length h \<and> byteOffset a + byteLength a \<le> length (h ! buffer a)"

definition contents :: "heap \<Rightarrow> u8array \<Rightarrow> byte list" where
  "contents h a = take (byteLength a) (drop (byteOffset a) (h ! buffer a))"

text \<open>
  \<^verbatim>\<open>new Uint8Array(n)\<close>, \<^verbatim>\<open>new Uint8Array(typedArray)\<close> and
  \<^verbatim>\<open>TextEncoder.encode\<close> all return a view on a fresh buffer of their own;
  \<open>alloc\<close> takes the initial bytes of that buffer.
\<close>

definition alloc :: "heap \<Rightarrow> byte list \<Rightarrow> heap \<times> u8array" where
  "alloc h bs = (h @ [bs], \<lparr>buffer = length h, byteOffset = 0, byteLength = length bs\<rparr>)"

definition overwrite :: "byte list \<Rightarrow> nat \<Rightarrow> byte list \<Rightarrow> byte list" where
  "overwrite xs k bs = take k xs @ bs @ drop (k + length bs) xs"

text \<open>
  \<^verbatim>\<open>target.set(source, offset)\<close>: a RangeError when the source does not fit,
  otherwise the source's elements are copied into the target's buffer.
\<close>

definition array_set :: "heap \<Rightarrow> u8array \<Rightarrow> u8array \<Rightarrow> nat \<Rightarrow> js_error + heap" where
  "array_set h target source offset =
     (if offset + byteLength source > byteLength target then Inl RangeError
      else Inr (h[buffer target :=
                  overwrite (h ! buffer target) (byteOffset target + offset) (contents h source)]))"

text \<open>
  \<^verbatim>\<open>new DataView(buf).setUint32(offset, value, true)\<close> stores the value modulo
  \<open>2^32\<close>, least significant byte first; \<^verbatim>\<open>getUint32(offset, true)\<close> reads it back.
  Both raise a RangeError when the four bytes do not lie inside the buffer.
\<close>

definition uint32_le :: "nat \<Rightarrow> byte list" where
  "uint32_le v = [of_nat v, of_nat (v div 256), of_nat (v div 65536), of_nat (v div 16777216)]"

definition setUint32 :: "heap \<Rightarrow> nat \<Rightarrow> nat \<Rightarrow> nat \<Rightarrow> js_error + heap" where
  "setUint32 h b offset v =
     (if offset + 4 > length (h ! b) then Inl RangeError
      else Inr (h[b := overwrite (h ! b) offset (uint32_le v)]))"

definition getUint32 :: "heap \<Rightarrow> nat \<Rightarrow> nat \<Rightarrow> js_error + nat" where
  "getUint32 h b offset =
     (if offset + 4 > length (h ! b) then Inl RangeError
      else Inr (unat (h ! b ! offset) + 256 * unat (h ! b ! (offset + 1))
                + 65536 * unat (h ! b ! (offset + 2)) + 16777216 * unat (h ! b ! (offset + 3))))"

text \<open>
  \<^verbatim>\<open>new Uint8Array(buf, byteOffset, length)\<close> and \<^verbatim>\<open>new Uint8Array(buf, byteOffset)\<close>:
  views on an existing buffer, a RangeError when the view would leave the buffer.
\<close>

definition view :: "heap \<Rightarrow> nat \<Rightarrow> nat \<Rightarrow> nat \<Rightarrow> js_error + u8array" where
  "view h b offset n =
     (if offset + n > length (h ! b) then Inl RangeError
      else Inr \<lparr>buffer = b, byteOffset = offset, byteLength = n\<rparr>)"

definition view_rest :: "heap \<Rightarrow> nat \<Rightarrow> nat \<Rightarrow> js_error + u8array" where
  "view_rest h b offset =
     (if offset > length (h ! b) then Inl RangeError
      else Inr \<lparr>buffer = b, byteOffset = offset, byteLength = length (h ! b) - offset\<rparr>)"


section \<open>The encrypted container of PDFProtection\<close>

text \<open>
  \<^verbatim>\<open>options.userPassword\<close> and \<^verbatim>\<open>options.ownerPassword\<close> are strings or
  undefined (\<open>None\<close>); \<^verbatim>\<open>options.permissions\<close> is whatever the caller passes.
  A JavaScript string is truthy when it is not empty.
\<close>

record 'p options =
  userPassword :: "string option"
  ownerPassword :: "string option"
  permissions :: 'p

record 'p metadata =
  version :: string
  encryption :: string
  timestamp :: string
  permissions_meta :: 'p
  hasUserPassword :: bool
  hasOwnerPassword :: bool

definition truthy :: "string option \<Rightarrow> bool" where
  "truthy s = (case s of None \<Rightarrow> False | Some t \<Rightarrow> t \<noteq> [])"

text \<open>
  \<open>now\<close> is the value of \<^verbatim>\<open>new Date().toISOString()\<close>.
\<close>

definition make_metadata :: "string \<Rightarrow> 'p options \<Rightarrow> 'p metadata" where
  "make_metadata now opts =
     \<lparr>version = ''1.0'', encryption = ''AES-256-GCM'', timestamp = now,
      permissions_meta = permissions opts,
      hasUserPassword = truthy (userPassword opts),
      hasOwnerPassword = truthy (ownerPassword opts)\<rparr>"

text \<open>
  \<open>stringify\<close> stands for \<^verbatim>\<open>new TextEncoder().encode(JSON.stringify(metadata))\<close>,
  the platform's serialisation of the metadata object to UTF-8 bytes.
\<close>

definition createEncryptedContainer ::
  "('p metadata \<Rightarrow> byte list) \<Rightarrow> string \<Rightarrow> heap \<Rightarrow> u8array \<Rightarrow> u8array \<Rightarrow> u8array
     \<Rightarrow> 'p options \<Rightarrow> js_error + (heap \<times> u8array)" where
  "createEncryptedContainer stringify now h encrypted salt_in iv_in opts =
     (let meta = make_metadata now opts;
          (h1, metadataBytes) = alloc h (stringify meta);
          (h2, container) = alloc h1 (replicate
             (4 + byteLength metadataBytes + byteLength salt_in + byteLength iv_in
                + byteLength encrypted) 0);
          offset0 = 0
      in (case setUint32 h2 (buffer container) offset0 (byteLength metadataBytes) of
           Inl e \<Rightarrow> Inl e
         | Inr h3 \<Rightarrow>
      (let offset1 = offset0 + 4
       in (case array_set h3 container metadataBytes offset1 of
           Inl e \<Rightarrow> Inl e
         | Inr h4 \<Rightarrow>
      (let offset2 = offset1 + byteLength metadataBytes
       in (case array_set h4 container salt_in offset2 of
           Inl e \<Rightarrow> Inl e
         | Inr h5 \<Rightarrow>
      (let offset3 = offset2 + byteLength salt_in
       in (case array_set h5 container iv_in offset3 of
           Inl e \<Rightarrow> Inl e
         | Inr h6 \<Rightarrow>
      (let offset4 = offset3 + byteLength iv_in
       in (case array_set h6 container encrypted offset4 of
           Inl e \<Rightarrow> Inl e
         | Inr h7 \<Rightarrow> Inr (h7, container)))))))))))"

record 'p container_parts =
  r_metadata :: "'p metadata"
  r_salt :: u8array
  r_iv :: u8array
  r_encryptedData :: u8array

text \<open>
  \<open>parse\<close> stands for \<^verbatim>\<open>JSON.parse(new TextDecoder().decode(bytes))\<close>; decoding
  raises nothing, \<^verbatim>\<open>JSON.parse\<close> raises a SyntaxError. All offsets are relative to
  \<^verbatim>\<open>containerData.buffer\<close>, as in the source.
\<close>

definition parseEncryptedContainer ::
  "(byte list \<Rightarrow> js_error + 'p metadata) \<Rightarrow> heap \<Rightarrow> u8array
     \<Rightarrow> js_error + 'p container_parts" where
  "parseEncryptedContainer parse h containerData =
     (let b = buffer containerData; offset0 = 0
      in (case getUint32 h b offset0 of
           Inl e \<Rightarrow> Inl e
         | Inr metadataLength \<Rightarrow>
      (let offset1 = offset0 + 4
       in (case view h b offset1 metadataLength of
           Inl e \<Rightarrow> Inl e
         | Inr metadataBytes \<Rightarrow>
      (case parse (contents h metadataBytes) of
           Inl e \<Rightarrow> Inl e
         | Inr meta \<Rightarrow>
      (let offset2 = offset1 + metadataLength
       in (case view h b offset2 16 of
           Inl e \<Rightarrow> Inl e
         | Inr salt_v \<Rightarrow>
      (let offset3 = offset2 + 16
       in (case view h b offset3 12 of
           Inl e \<Rightarrow> Inl e
         | Inr iv_v \<Rightarrow>
      (let offset4 = offset3 + 12
       in (case view_rest h b offset4 of
           Inl e \<Rightarrow> Inl e
         | Inr encrypted_v \<Rightarrow>
      Inr \<lparr>r_metadata = meta, r_salt = salt_v, r_iv = iv_v,
            r_encryptedData = encrypted_v\<rparr>)))))))))))"


section \<open>Layout of the container\<close>

lemma length_uint32_le: "length (uint32_le v) = 4"
  by (simp add: uint32_le_def)

lemma length_contents:
  "wf_array h a \<Longrightarrow> length (contents h a) = byteLength a"
  by (auto simp add: contents_def wf_array_def)

lemma contents_old:
  "wf_array h a \<Longrightarrow> contents (h @ hs) a = contents h a"
  by (simp add: contents_def wf_array_def nth_append)

lemma contents_last:
  "contents (h @ [m]) \<lparr>buffer = length h, byteOffset = 0, byteLength = length m\<rparr> = m"
  by (simp add: contents_def)

lemma array_set_fill:
  assumes "buffer c = length h" "byteOffset c = 0"
    and "contents (h @ [pre @ replicate (length bs + k) 0]) src = bs"
    and "byteLength src = length bs"
    and "length pre + length bs \<le> byteLength c"
    and "off = length pre"
  shows "array_set (h @ [pre @ replicate (length bs + k) 0]) c src off =
           Inr (h @ [(pre @ bs) @ replicate k 0])"
  using assms by (simp add: array_set_def overwrite_def)

lemma setUint32_fill:
  "setUint32 (h @ [replicate (4 + k) 0]) (length h) 0 v = Inr (h @ [uint32_le v @ replicate k 0])"
  by (simp add: setUint32_def overwrite_def length_uint32_le)

lemma create_layout:
  assumes e: "wf_array h ed" and s: "wf_array h s" and i: "wf_array h i"
  shows "createEncryptedContainer stringify now h ed s i opts =
           Inr (h @ [stringify (make_metadata now opts),
              uint32_le (length (stringify (make_metadata now opts))) @
               stringify (make_metadata now opts) @ contents h s @ contents h i @ contents h ed],
              \<lparr>buffer = Suc (length h), byteOffset = 0,
               byteLength = 4 + length (stringify (make_metadata now opts)) + byteLength s
                  + byteLength i + byteLength ed\<rparr>)"
proof -
  define m where "m = stringify (make_metadata now opts)"
  define S where "S = contents h s"
  define I where "I = contents h i"
  define E where "E = contents h ed"
  define L where "L = uint32_le (length m)"
  define h1 where "h1 = h @ [m]"
  define mb where "mb = \<lparr>buffer = length h, byteOffset = 0, byteLength = length m\<rparr>"
  define c where "c = \<lparr>buffer = length h1, byteOffset = 0,
     byteLength = 4 + length m + length S + length I + length E\<rparr>"
  have len: "byteLength s = length S" "byteLength i = length I" "byteLength ed = length E"
    "byteLength mb = length m" "length L = 4"
    using e s i by (simp_all add: length_contents S_def I_def E_def mb_def L_def length_uint32_le)
  have wf1: "wf_array h1 ed" "wf_array h1 s" "wf_array h1 i" "wf_array h1 mb"
    using e s i by (auto simp: wf_array_def h1_def mb_def nth_append)
  have c0: "contents h1 ed = E" "contents h1 s = S" "contents h1 i = I" "contents h1 mb = m"
    using e s i by (simp_all add: contents_old S_def I_def E_def h1_def)
      (simp add: mb_def contents_def)
  have c1: "\<And>x. contents (h1 @ [x]) ed = E" "\<And>x. contents (h1 @ [x]) s = S"
    "\<And>x. contents (h1 @ [x]) i = I" "\<And>x. contents (h1 @ [x]) mb = m"
    using wf1 c0 by (simp_all add: contents_old)
  have cprops: "buffer c = length h1" "byteOffset c = 0"
    "byteLength c = 4 + length m + length S + length I + length E"
    by (simp_all add: c_def)
  have al1: "alloc h m = (h1, mb)" by (simp add: alloc_def h1_def mb_def)
  have al2: "alloc h1 (replicate (4 + byteLength mb + byteLength s + byteLength i + byteLength ed) 0)
      = (h1 @ [replicate (4 + (length m + (length S + (length I + (length E + 0))))) 0], c)"
    by (simp add: alloc_def c_def len)
  have st3: "setUint32 (h1 @ [replicate (4 + (length m + (length S + (length I + (length E + 0))))) 0])
                (buffer c) 0 (byteLength mb) =
               Inr (h1 @ [L @ replicate (length m + (length S + (length I + (length E + 0)))) 0])"
    unfolding cprops len L_def by (rule setUint32_fill)
  have st4: "array_set (h1 @ [L @ replicate (length m + (length S + (length I + (length E + 0)))) 0])
               c mb (0 + 4) =
               Inr (h1 @ [(L @ m) @ replicate (length S + (length I + (length E + 0))) 0])"
    by (rule array_set_fill) (simp_all add: cprops c1 len)
  have st5: "array_set (h1 @ [(L @ m) @ replicate (length S + (length I + (length E + 0))) 0])
               c s (0 + 4 + byteLength mb) =
               Inr (h1 @ [((L @ m) @ S) @ replicate (length I + (length E + 0)) 0])"
    by (rule array_set_fill) (simp_all add: cprops c1 len)
  have st6: "array_set (h1 @ [((L @ m) @ S) @ replicate (length I + (length E + 0)) 0])
               c i (0 + 4 + byteLength mb + byteLength s) =
               Inr (h1 @ [(((L @ m) @ S) @ I) @ replicate (length E + 0) 0])"
    by (rule array_set_fill) (simp_all add: cprops c1 len)
  have st7: "array_set (h1 @ [(((L @ m) @ S) @ I) @ replicate (length E + 0) 0])
               c ed (0 + 4 + byteLength mb + byteLength s + byteLength i) =
               Inr (h1 @ [((((L @ m) @ S) @ I) @ E) @ replicate 0 0])"
    by (rule array_set_fill) (simp_all add: cprops c1 len)
  have "createEncryptedContainer stringify now h ed s i opts =
          Inr (h1 @ [((((L @ m) @ S) @ I) @ E) @ replicate 0 0], c)"
    unfolding createEncryptedContainer_def m_def [symmetric] Let_def al1 al2 prod.case
      st3 sum.case st4 st5 st6 st7 ..
  then show ?thesis
    by (simp add: h1_def c_def len m_def S_def I_def E_def L_def)
qed

lemma uint32_le_value:
  assumes "v < 2 ^ 32"
  shows "unat (of_nat v :: byte) + 256 * unat (of_nat (v div 256) :: byte)
         + 65536 * unat (of_nat (v div 65536) :: byte)
         + 16777216 * unat (of_nat (v div 16777216) :: byte) = v"
proof -
  define q1 where "q1 = v div 256"
  define q2 where "q2 = q1 div 256"
  define q3 where "q3 = q2 div 256"
  have e2: "v div 65536 = q2" and e3: "v div 16777216 = q3"
    by (simp_all add: q1_def q2_def q3_def div_mult2_eq)
  have s0: "v = v mod 256 + 256 * q1" and s1: "q1 = q1 mod 256 + 256 * q2"
    and s2: "q2 = q2 mod 256 + 256 * q3"
    by (simp_all add: q1_def q2_def q3_def)
  have "q3 < 256" using assms unfolding e3 [symmetric] by simp
  then have s3: "q3 mod 256 = q3" by simp
  have "v mod 256 + 256 * (q1 mod 256) + 65536 * (q2 mod 256) + 16777216 * (q3 mod 256) = v"
    using s0 s1 s2 s3 by linarith
  then show ?thesis by (simp add: unat_of_nat e2 e3 q1_def [symmetric])
qed

lemma getUint32_uint32_le:
  assumes "v < 2 ^ 32"
  shows "getUint32 (h @ [m, uint32_le v @ rest]) (Suc (length h)) 0 = Inr v"
  using uint32_le_value [OF assms]
  by (simp add: getUint32_def nth_append uint32_le_def)

text \<open>
  Claim C1. For a 16-byte salt, a 12-byte IV and any ciphertext,
  \<^verbatim>\<open>createEncryptedContainer\<close> returns (never raises) an array whose bytes are: the
  four bytes of the length of the encoded metadata, least significant first, which
  \<^verbatim>\<open>getUint32\<close> reads back as that length; the metadata bytes; the 16 salt bytes; the
  12 IV bytes; the ciphertext. Its length is 4 + metadataLength + 16 + 12 +
  ciphertextLength. The inputs are typed arrays of the heap, and the encoded metadata is
  shorter than \<open>2^32\<close> bytes, the range of the length field (no engine builds a longer
  string).
\<close>

theorem createEncryptedContainer_layout:
  assumes "wf_array h encrypted" and "wf_array h salt_in" and "wf_array h iv_in"
    and "byteLength salt_in = 16" and "byteLength iv_in = 12"
    and "length (stringify (make_metadata now opts)) < 2 ^ 32"
  shows "\<exists>h' c. createEncryptedContainer stringify now h encrypted salt_in iv_in opts = Inr (h', c)
           \<and> wf_array h' c
           \<and> contents h' c =
                uint32_le (length (stringify (make_metadata now opts)))
                @ stringify (make_metadata now opts)
                @ contents h salt_in @ contents h iv_in @ contents h encrypted
           \<and> length (uint32_le (length (stringify (make_metadata now opts)))) = 4
           \<and> getUint32 h' (buffer c) (byteOffset c)
                = Inr (length (stringify (make_metadata now opts)))
           \<and> length (contents h salt_in) = 16
           \<and> length (contents h iv_in) = 12
           \<and> byteLength c =
                4 + length (stringify (make_metadata now opts)) + 16 + 12 + byteLength encrypted"
proof -
  have len: "length (contents h salt_in) = 16" "length (contents h iv_in) = 12"
    "length (contents h encrypted) = byteLength encrypted"
    using assms by (simp_all add: length_contents)
  show ?thesis
    using assms(4-6) len
    by (simp add: create_layout [OF assms(1-3)] wf_array_def contents_def nth_append
      length_uint32_le getUint32_uint32_le)
qed

text \<open>
  The layout theorem at a concrete heap: a 16-byte salt, a 12-byte IV, a two-byte
  ciphertext that is a view into a longer buffer, and the metadata bytes \<open>{}\<close>.
\<close>

theorem createEncryptedContainer_layout_witness:
  "wf_array [replicate 16 7, replicate 12 9, [1, 2, 3]] \<lparr>buffer = 2, byteOffset = 1, byteLength = 2\<rparr>
   \<and> wf_array [replicate 16 7, replicate 12 9, [1, 2, 3]] \<lparr>buffer = 0, byteOffset = 0, byteLength = 16\<rparr>
   \<and> wf_array [replicate 16 7, replicate 12 9, [1, 2, 3]] \<lparr>buffer = Suc 0, byteOffset = 0, byteLength = 12\<rparr>
   \<and> length ((\<lambda>m. [123, 125 :: byte]) (make_metadata ''2024-01-01T00:00:00.000Z''
          \<lparr>userPassword = Some ''pw'', ownerPassword = None, permissions = ()\<rparr>)) < 2 ^ 32
   \<and> (\<exists>h' c. createEncryptedContainer (\<lambda>m. [123, 125]) ''2024-01-01T00:00:00.000Z''
          [replicate 16 7, replicate 12 9, [1, 2, 3]]
          \<lparr>buffer = 2, byteOffset = 1, byteLength = 2\<rparr>
          \<lparr>buffer = 0, byteOffset = 0, byteLength = 16\<rparr>
          \<lparr>buffer = Suc 0, byteOffset = 0, byteLength = 12\<rparr>
          \<lparr>userPassword = Some ''pw'', ownerPassword = None, permissions = ()\<rparr> = Inr (h', c)
        \<and> contents h' c = [2, 0, 0, 0, 123, 125] @ replicate 16 7 @ replicate 12 9 @ [2, 3]
        \<and> byteLength c = 36)"
  using createEncryptedContainer_layout [of "[replicate 16 7, replicate 12 9, [1, 2, 3]]"
      "\<lparr>buffer = 2, byteOffset = 1, byteLength = 2\<rparr>"
      "\<lparr>buffer = 0, byteOffset = 0, byteLength = 16\<rparr>"
      "\<lparr>buffer = Suc 0, byteOffset = 0, byteLength = 12\<rparr>"
      "\<lambda>m. [123, 125]" "''2024-01-01T00:00:00.000Z''"
      "\<lparr>userPassword = Some ''pw'', ownerPassword = None, permissions = ()\<rparr>"]
  by (simp add: wf_array_def contents_def uint32_le_def) blast


section \<open>Round trip through the container\<close>

lemma parse_layout:
  assumes "length m < 2 ^ 32" and "length S = 16" and "length I = 12"
    and "parse m = Inr meta"
  shows "parseEncryptedContainer parse (h @ [m, uint32_le (length m) @ m @ S @ I @ E])
           \<lparr>buffer = Suc (length h), byteOffset = 0, byteLength = n\<rparr> =
         Inr \<lparr>r_metadata = meta,
              r_salt = \<lparr>buffer = Suc (length h), byteOffset = 4 + length m, byteLength = 16\<rparr>,
              r_iv = \<lparr>buffer = Suc (length h), byteOffset = 4 + length m + 16, byteLength = 12\<rparr>,
              r_encryptedData = \<lparr>buffer = Suc (length h), byteOffset = 4 + length m + 16 + 12,
                  byteLength = length E\<rparr>\<rparr>"
  using assms
  by (simp add: parseEncryptedContainer_def Let_def getUint32_uint32_le view_def view_rest_def
      contents_def nth_append length_uint32_le)

lemma contents_in_container:
  "contents (h @ [m, pre @ bs @ post])
     \<lparr>buffer = Suc (length h), byteOffset = length pre, byteLength = length bs\<rparr> = bs"
  by (simp add: contents_def nth_append)

text \<open>
  Claim C2. When the metadata object built from the options is parse-stable (parsing its
  encoding gives it back), the salt has 16 bytes and the IV 12, then parsing the container
  that \<^verbatim>\<open>createEncryptedContainer\<close> built returns that metadata object and three views
  whose bytes are the original salt, IV and ciphertext. The encoded metadata is shorter
  than \<open>2^32\<close> bytes, the range of the length field.
\<close>

theorem container_round_trip:
  assumes "wf_array h encrypted" and "wf_array h salt_in" and "wf_array h iv_in"
    and "byteLength salt_in = 16" and "byteLength iv_in = 12"
    and "length (stringify (make_metadata now opts)) < 2 ^ 32"
    and "parse (stringify (make_metadata now opts)) = Inr (make_metadata now opts)"
  shows "\<exists>h' c r. createEncryptedContainer stringify now h encrypted salt_in iv_in opts = Inr (h', c)
           \<and> parseEncryptedContainer parse h' c = Inr r
           \<and> r_metadata r = make_metadata now opts
           \<and> contents h' (r_salt r) = contents h salt_in
           \<and> contents h' (r_iv r) = contents h iv_in
           \<and> contents h' (r_encryptedData r) = contents h encrypted"
proof -
  define m where "m = stringify (make_metadata now opts)"
  define S where "S = contents h salt_in"
  define I where "I = contents h iv_in"
  define E where "E = contents h encrypted"
  define L where "L = uint32_le (length m)"
  define h' where "h' = h @ [m, L @ m @ S @ I @ E]"
  define b where "b = Suc (length h)"
  define c where "c = \<lparr>buffer = b, byteOffset = 0,
      byteLength = 4 + length m + byteLength salt_in + byteLength iv_in + byteLength encrypted\<rparr>"
  define r where "r = \<lparr>r_metadata = make_metadata now opts,
      r_salt = \<lparr>buffer = b, byteOffset = 4 + length m, byteLength = 16\<rparr>,
      r_iv = \<lparr>buffer = b, byteOffset = 4 + length m + 16, byteLength = 12\<rparr>,
      r_encryptedData = \<lparr>buffer = b, byteOffset = 4 + length m + 16 + 12,
         byteLength = length E\<rparr>\<rparr>"
  have len: "length S = 16" "length I = 12" "length L = 4"
    using assms by (simp_all add: length_contents S_def I_def L_def length_uint32_le)
  have mk: "createEncryptedContainer stringify now h encrypted salt_in iv_in opts = Inr (h', c)"
    unfolding create_layout [OF assms(1-3)]
    by (simp add: h'_def c_def m_def S_def I_def E_def L_def b_def)
  have rd: "parseEncryptedContainer parse h' c = Inr r"
    unfolding h'_def c_def r_def L_def b_def
    by (rule parse_layout) (use assms(6,7) len in \<open>simp_all add: m_def\<close>)
  have cs: "contents h' (r_salt r) = S"
    using contents_in_container [of h m "L @ m" S "I @ E"]
    by (simp add: r_def h'_def b_def len)
  have ci: "contents h' (r_iv r) = I"
    using contents_in_container [of h m "L @ m @ S" I E]
    by (simp add: r_def h'_def b_def len)
  have ce: "contents h' (r_encryptedData r) = E"
    using contents_in_container [of h m "L @ m @ S @ I" E "[]"]
    by (simp add: r_def h'_def b_def len)
  have "r_metadata r = make_metadata now opts"
    by (simp add: r_def)
  with mk rd cs ci ce show ?thesis
    unfolding S_def I_def E_def by blast
qed

text \<open>
  The round trip at the concrete heap used above, with a parser that accepts exactly the
  encoding \<open>{}\<close>.
\<close>

theorem container_round_trip_witness:
  "wf_array [replicate 16 7, replicate 12 9, [1, 2, 3]] \<lparr>buffer = 2, byteOffset = 1, byteLength = 2\<rparr>
   \<and> wf_array [replicate 16 7, replicate 12 9, [1, 2, 3]] \<lparr>buffer = 0, byteOffset = 0, byteLength = 16\<rparr>
   \<and> wf_array [replicate 16 7, replicate 12 9, [1, 2, 3]] \<lparr>buffer = Suc 0, byteOffset = 0, byteLength = 12\<rparr>
   \<and> (\<exists>h' c r. createEncryptedContainer (\<lambda>m. [123, 125]) ''2024-01-01T00:00:00.000Z''
          [replicate 16 7, replicate 12 9, [1, 2, 3]]
          \<lparr>buffer = 2, byteOffset = 1, byteLength = 2\<rparr>
          \<lparr>buffer = 0, byteOffset = 0, byteLength = 16\<rparr>
          \<lparr>buffer = Suc 0, byteOffset = 0, byteLength = 12\<rparr>
          \<lparr>userPassword = Some ''pw'', ownerPassword = None, permissions = ()\<rparr> = Inr (h', c)
        \<and> parseEncryptedContainer
             (\<lambda>bs. if bs = [123, 125] then Inr (make_metadata ''2024-01-01T00:00:00.000Z''
                  \<lparr>userPassword = Some ''pw'', ownerPassword = None, permissions = ()\<rparr>)
                else Inl SyntaxError) h' c = Inr r
        \<and> r_metadata r = make_metadata ''2024-01-01T00:00:00.000Z''
                  \<lparr>userPassword = Some ''pw'', ownerPassword = None, permissions = ()\<rparr>
        \<and> contents h' (r_salt r) = replicate 16 7
        \<and> contents h' (r_iv r) = replicate 12 9
        \<and> contents h' (r_encryptedData r) = [2, 3])"
  using container_round_trip [of "[replicate 16 7, replicate 12 9, [1, 2, 3]]"
      "\<lparr>buffer = 2, byteOffset = 1, byteLength = 2\<rparr>"
      "\<lparr>buffer = 0, byteOffset = 0, byteLength = 16\<rparr>"
      "\<lparr>buffer = Suc 0, byteOffset = 0, byteLength = 12\<rparr>"
      "\<lambda>m. [123, 125]" "''2024-01-01T00:00:00.000Z''"
      "\<lparr>userPassword = Some ''pw'', ownerPassword = None, permissions = ()\<rparr>"
      "\<lambda>bs. if bs = [123, 125] then Inr (make_metadata ''2024-01-01T00:00:00.000Z''
                  \<lparr>userPassword = Some ''pw'', ownerPassword = None, permissions = ()\<rparr>)
                else Inl SyntaxError"]
  by (simp add: wf_array_def contents_def)


section \<open>The mock QPDF fallback\<close>

text \<open>
  \<^verbatim>\<open>createMockQPDF().encrypt\<close> and \<^verbatim>\<open>generateKey\<close> of QPDFEncryption. A string is
  modelled by the bytes of its UTF-8 encoding, so \<^verbatim>\<open>TextEncoder.encode\<close> reads the
  characters off as bytes, and a string is empty exactly when its encoding is.

  JavaScript's \<^verbatim>\<open>^\<close> works on 32-bit integers, an undefined operand counts as 0, and
  a store into a \<^verbatim>\<open>Uint8Array\<close> keeps the low eight bits: \<open>xor_to_uint8\<close>.
  Reading a typed array outside its length gives undefined: \<open>element\<close>.
\<close>

definition encode_utf8 :: "string \<Rightarrow> byte list" where
  "encode_utf8 s = map (\<lambda>c. of_nat (of_char c)) s"

definition xor_to_uint8 :: "byte option \<Rightarrow> 32 word \<Rightarrow> byte" where
  "xor_to_uint8 x y = ucast ((case x of None \<Rightarrow> 0 | Some b \<Rightarrow> ucast b) XOR y)"

definition element :: "byte list \<Rightarrow> nat \<Rightarrow> byte option" where
  "element xs i = (if i < length xs then Some (xs ! i) else None)"

definition generateKey :: "string \<Rightarrow> byte list" where
  "generateKey password =
     (let data = encode_utf8 password;
          key = replicate 256 0
      in fold (\<lambda>i key.
                 key[i := xor_to_uint8
                    (if data = [] then None else element data (i mod length data))
                    (of_nat (i * 17))])
           [0..<256] key)"

definition xor_assign :: "heap \<Rightarrow> u8array \<Rightarrow> nat \<Rightarrow> byte option \<Rightarrow> heap" where
  "xor_assign h a i k =
     (if i < byteLength a
      then h[buffer a := (h ! buffer a)[byteOffset a + i :=
              xor_to_uint8 (Some (h ! buffer a ! (byteOffset a + i)))
                (case k of None \<Rightarrow> 0 | Some b \<Rightarrow> ucast b)]]
      else h)"

definition password_or_default :: "'p options \<Rightarrow> string" where
  "password_or_default opts = (case userPassword opts of
                        None \<Rightarrow> ''default''
                      | Some s \<Rightarrow> if s = [] then ''default'' else s)"

definition createMockQPDF_encrypt :: "heap \<Rightarrow> u8array \<Rightarrow> 'p options \<Rightarrow> heap \<times> u8array" where
  "createMockQPDF_encrypt h pdfData opts =
     (let password = password_or_default opts;
          key = generateKey password;
          (h1, encrypted) = alloc h (contents h pdfData)
      in (fold (\<lambda>i h'. xor_assign h' encrypted i (element key (i mod length key)))
            [0..<byteLength encrypted] h1,
          encrypted))"

lemma xor_to_uint8_Some: "xor_to_uint8 (Some a) (ucast (b::byte)) = a XOR b"
  unfolding xor_to_uint8_def
  by (rule bit_eqI) (auto simp add: bit_simps)

lemma of_nat_mod_256: "(of_nat (n mod 256) :: byte) = of_nat n"
  by (rule bit_eqI) (auto simp add: bit_simps bit_of_nat_iff bit_take_bit_iff
       take_bit_eq_mod [symmetric, where n = 8, simplified])

lemma xor_to_uint8_of_nat: "xor_to_uint8 (Some a) (of_nat n) = a XOR of_nat (n mod 256)"
  unfolding xor_to_uint8_def of_nat_mod_256
  by (rule bit_eqI) (auto simp add: bit_simps)

lemma xor_to_uint8_None: "xor_to_uint8 None (of_nat n) = of_nat (n mod 256)"
  unfolding xor_to_uint8_def of_nat_mod_256
  by (rule bit_eqI) (auto simp add: bit_simps)


lemma fold_update_map:
  "n \<le> length xs \<Longrightarrow> fold (\<lambda>i k. k[i := f i]) [0..<n] xs = map f [0..<n] @ drop n xs"
proof (induction n)
  case 0
  then show ?case by simp
next
  case (Suc n)
  then have "n < length xs" by simp
  then have "(drop n xs)[0 := f n] = f n # drop (Suc n) xs"
    by (simp add: Cons_nth_drop_Suc [symmetric])
  with Suc show ?case
    by (simp add: list_update_append)
qed

lemma generateKey_map:
  "generateKey password =
     map (\<lambda>i. xor_to_uint8
            (if encode_utf8 password = [] then None
             else element (encode_utf8 password) (i mod length (encode_utf8 password)))
            (of_nat (i * 17))) [0..<256]"
  unfolding generateKey_def Let_def
  by (subst fold_update_map) simp_all

lemma length_generateKey: "length (generateKey password) = 256"
  by (simp add: generateKey_map)

lemma generateKey_nth:
  assumes "j < 256" and "encode_utf8 password \<noteq> []"
  shows "generateKey password ! j =
           encode_utf8 password ! (j mod length (encode_utf8 password)) XOR of_nat (j * 17 mod 256)"
  using assms xor_to_uint8_of_nat [of _ "j * 17"]
  by (simp add: generateKey_map element_def)

lemma fold_xor_assign:
  assumes "buffer a = length h" and "byteOffset a = 0" and "byteLength a = length es"
  shows "n \<le> length es \<Longrightarrow>
         fold (\<lambda>i h'. xor_assign h' a i (k i)) [0..<n] (h @ [es]) =
           h @ [map (\<lambda>i. xor_to_uint8 (Some (es ! i)) (case k i of None \<Rightarrow> 0 | Some b \<Rightarrow> ucast b))
                  [0..<n] @ drop n es]"
proof (induction n)
  case 0
  then show ?case by simp
next
  case (Suc n)
  then have n: "n < length es" by simp
  then have "(drop n es)[0 := v] = v # drop (Suc n) es" for v
    by (simp add: Cons_nth_drop_Suc [symmetric])
  with Suc n assms show ?case
    by (simp add: xor_assign_def list_update_append nth_append)
qed

lemma mock_encrypt_result:
  assumes "wf_array h pdfData"
  shows "createMockQPDF_encrypt h pdfData opts =
           (h @ [map (\<lambda>i. contents h pdfData ! i
                          XOR generateKey (password_or_default opts) ! (i mod 256))
                   [0..<byteLength pdfData]],
            \<lparr>buffer = length h, byteOffset = 0, byteLength = byteLength pdfData\<rparr>)"
proof -
  have len: "length (contents h pdfData) = byteLength pdfData"
    using assms by (rule length_contents)
  have key: "element (generateKey pw) (i mod length (generateKey pw)) =
               Some (generateKey pw ! (i mod 256))" for pw i
    by (simp add: element_def length_generateKey)
  show ?thesis
    unfolding createMockQPDF_encrypt_def Let_def alloc_def prod.case
    by (subst fold_xor_assign) (simp_all add: len key xor_to_uint8_Some)
qed


lemma password_or_default_nonempty: "encode_utf8 (password_or_default opts) \<noteq> []"
  by (simp add: password_or_default_def encode_utf8_def split: option.splits)

lemma contents_fresh:
  "contents (h @ [bs]) \<lparr>buffer = length h, byteOffset = 0, byteLength = length bs\<rparr> = bs"
  by (simp add: contents_def)

text \<open>
  Claim C3. The mock \<^verbatim>\<open>encrypt\<close> returns a new array of the input's length whose
  byte \<open>i\<close> is input byte \<open>i\<close> XOR \<open>key[i mod 256]\<close>; the key has 256 bytes,
  \<open>key[j] = passwordBytes[j mod passwordLength] XOR (j * 17 mod 256)\<close>; the password is
  \<^verbatim>\<open>options.userPassword\<close> when that is a non-empty string and \<open>default\<close> otherwise.
  The input is not mutated: every buffer that existed before the call is unchanged, and
  so are the bytes seen through the input array.
\<close>

theorem mock_encrypt_xor:
  assumes "wf_array h pdfData"
  shows "\<exists>h' out. createMockQPDF_encrypt h pdfData opts = (h', out)
           \<and> wf_array h' out
           \<and> length (contents h' out) = length (contents h pdfData)
           \<and> (\<forall>i < length (contents h pdfData).
                 contents h' out ! i =
                   contents h pdfData ! i XOR generateKey (password_or_default opts) ! (i mod 256))
           \<and> length (generateKey (password_or_default opts)) = 256
           \<and> (\<forall>j < 256.
                 generateKey (password_or_default opts) ! j =
                   encode_utf8 (password_or_default opts)
                       ! (j mod length (encode_utf8 (password_or_default opts)))
                     XOR of_nat (j * 17 mod 256))
           \<and> (\<forall>s. userPassword opts = Some s \<and> s \<noteq> [] \<longrightarrow> password_or_default opts = s)
           \<and> (userPassword opts = None \<or> userPassword opts = Some []
                 \<longrightarrow> password_or_default opts = ''default'')
           \<and> take (length h) h' = h
           \<and> contents h' pdfData = contents h pdfData"
proof -
  define ks where "ks = generateKey (password_or_default opts)"
  define bs where "bs = map (\<lambda>i. contents h pdfData ! i XOR ks ! (i mod 256))
                          [0..<byteLength pdfData]"
  define out where "out = \<lparr>buffer = length h, byteOffset = 0, byteLength = byteLength pdfData\<rparr>"
  have len: "length (contents h pdfData) = byteLength pdfData"
    using assms by (rule length_contents)
  have lbs: "length bs = byteLength pdfData" by (simp add: bs_def)
  have r: "createMockQPDF_encrypt h pdfData opts = (h @ [bs], out)"
    by (simp add: mock_encrypt_result [OF assms] bs_def ks_def out_def)
  have c: "contents (h @ [bs]) out = bs"
    using contents_fresh [of h bs] by (simp add: out_def lbs)
  have wf: "wf_array (h @ [bs]) out"
    by (simp add: wf_array_def out_def lbs)
  have nth: "\<forall>i < length (contents h pdfData). contents (h @ [bs]) out ! i =
                contents h pdfData ! i XOR ks ! (i mod 256)"
    unfolding c by (simp add: bs_def len)
  have key: "\<forall>j < 256. ks ! j =
                 encode_utf8 (password_or_default opts)
                       ! (j mod length (encode_utf8 (password_or_default opts)))
                     XOR of_nat (j * 17 mod 256)"
    unfolding ks_def using generateKey_nth [OF _ password_or_default_nonempty] by blast
  have pw: "(\<forall>s. userPassword opts = Some s \<and> s \<noteq> [] \<longrightarrow> password_or_default opts = s)
           \<and> (userPassword opts = None \<or> userPassword opts = Some []
                 \<longrightarrow> password_or_default opts = ''default'')"
    by (auto simp add: password_or_default_def)
  have old: "take (length h) (h @ [bs]) = h" "contents (h @ [bs]) pdfData = contents h pdfData"
    using assms by (simp_all add: contents_old)
  have kl: "length ks = 256" by (simp add: ks_def length_generateKey)
  from r wf c nth key pw old kl show ?thesis
    unfolding ks_def [symmetric] by (simp add: lbs len)
qed

text \<open>
  An input that is a two-byte view into a four-byte buffer, with an empty user password.
\<close>

theorem mock_encrypt_xor_witness:
  "wf_array [[1, 2, 3, 4]] \<lparr>buffer = 0, byteOffset = 1, byteLength = 2\<rparr>
   \<and> (\<exists>h' out. createMockQPDF_encrypt [[1, 2, 3, 4]] \<lparr>buffer = 0, byteOffset = 1, byteLength = 2\<rparr>
          \<lparr>userPassword = Some [], ownerPassword = None, permissions = ()\<rparr> = (h', out)
        \<and> length (contents h' out) = 2
        \<and> contents h' out ! 0 = 2 XOR generateKey ''default'' ! 0
        \<and> take 1 h' = [[1, 2, 3, 4]])"
proof -
  let ?h = "[[1, 2, 3, 4 :: byte]]"
  let ?a = "\<lparr>buffer = 0, byteOffset = 1, byteLength = 2\<rparr>"
  let ?o = "\<lparr>userPassword = Some [], ownerPassword = None, permissions = ()\<rparr>"
  have wf: "wf_array ?h ?a" by (simp add: wf_array_def)
  have c: "contents ?h ?a = [2, 3]" by (simp add: contents_def)
  from mock_encrypt_xor [OF wf, of ?o] obtain h' out
    where r: "createMockQPDF_encrypt ?h ?a ?o = (h', out)"
      and l: "length (contents h' out) = length (contents ?h ?a)"
      and x: "\<forall>i < length (contents ?h ?a). contents h' out ! i =
                   contents ?h ?a ! i XOR generateKey (password_or_default ?o) ! (i mod 256)"
      and p: "userPassword ?o = None \<or> userPassword ?o = Some []
                 \<longrightarrow> password_or_default ?o = ''default''"
      and t: "take (length ?h) h' = ?h"
    by blast
  from p have p': "password_or_default ?o = ''default''" by simp
  from x have "contents h' out ! 0 = 2 XOR generateKey ''default'' ! 0"
    unfolding c p' by simp
  with wf r l t c show ?thesis by auto
qed

text \<open>
  Claim C9. Applying the mock \<^verbatim>\<open>encrypt\<close> to its own output, with options that carry
  the same \<^verbatim>\<open>userPassword\<close>, gives back the bytes of the original input.
\<close>

theorem mock_encrypt_involution:
  assumes "wf_array h pdfData" and "userPassword opts2 = userPassword opts1"
  shows "\<exists>h1 e1 h2 e2. createMockQPDF_encrypt h pdfData opts1 = (h1, e1)
           \<and> createMockQPDF_encrypt h1 e1 opts2 = (h2, e2)
           \<and> contents h2 e2 = contents h pdfData"
proof -
  define ks where "ks = generateKey (password_or_default opts1)"
  define bs where "bs = map (\<lambda>i. contents h pdfData ! i XOR ks ! (i mod 256))
                          [0..<byteLength pdfData]"
  define e1 where "e1 = \<lparr>buffer = length h, byteOffset = 0, byteLength = byteLength pdfData\<rparr>"
  define e2 where "e2 = \<lparr>buffer = Suc (length h), byteOffset = 0, byteLength = byteLength pdfData\<rparr>"
  define cs where "cs = map (\<lambda>i. bs ! i XOR ks ! (i mod 256)) [0..<byteLength pdfData]"
  have len: "length (contents h pdfData) = byteLength pdfData"
    using assms(1) by (rule length_contents)
  have lbs: "length bs = byteLength pdfData" by (simp add: bs_def)
  have same: "password_or_default opts2 = password_or_default opts1"
    using assms(2) by (simp add: password_or_default_def)
  have r1: "createMockQPDF_encrypt h pdfData opts1 = (h @ [bs], e1)"
    by (simp add: mock_encrypt_result [OF assms(1)] bs_def ks_def e1_def)
  have c1: "contents (h @ [bs]) e1 = bs"
    using contents_fresh [of h bs] by (simp add: e1_def lbs)
  have wf1: "wf_array (h @ [bs]) e1"
    by (simp add: wf_array_def e1_def lbs)
  have r2: "createMockQPDF_encrypt (h @ [bs]) e1 opts2 = ((h @ [bs]) @ [cs], e2)"
    unfolding mock_encrypt_result [OF wf1] c1 same
    by (simp add: cs_def ks_def e1_def e2_def)
  have "cs = map (\<lambda>i. contents h pdfData ! i) [0..<length (contents h pdfData)]"
    unfolding cs_def len by (rule map_cong) (simp_all add: bs_def xor.assoc)
  then have cs: "cs = contents h pdfData" by (simp add: map_nth)
  have c2: "contents ((h @ [bs]) @ [cs]) e2 = cs"
    using contents_fresh [of "h @ [bs]" cs] by (simp add: e2_def cs len)
  from r1 r2 c2 cs show ?thesis by simp
qed

text \<open>
  Two option objects that agree on the user password only.
\<close>

theorem mock_encrypt_involution_witness:
  "wf_array [[1, 2, 3, 4]] \<lparr>buffer = 0, byteOffset = 1, byteLength = 2\<rparr>
   \<and> (\<exists>h1 e1 h2 e2.
         createMockQPDF_encrypt [[1, 2, 3, 4]] \<lparr>buffer = 0, byteOffset = 1, byteLength = 2\<rparr>
          \<lparr>userPassword = Some ''secret'', ownerPassword = None, permissions = ()\<rparr> = (h1, e1)
        \<and> createMockQPDF_encrypt h1 e1
          \<lparr>userPassword = Some ''secret'', ownerPassword = Some ''o'', permissions = True\<rparr> = (h2, e2)
        \<and> contents h2 e2 = [2, 3])"
proof -
  let ?h = "[[1, 2, 3, 4 :: byte]]"
  let ?a = "\<lparr>buffer = 0, byteOffset = 1, byteLength = 2\<rparr>"
  have wf: "wf_array ?h ?a" by (simp add: wf_array_def)
  have c: "contents ?h ?a = [2, 3]" by (simp add: contents_def)
  have u: "userPassword \<lparr>userPassword = Some ''secret'', ownerPassword = Some ''o'', permissions = True\<rparr>
       = userPassword \<lparr>userPassword = Some ''secret'', ownerPassword = None, permissions = ()\<rparr>"
    by simp
  from mock_encrypt_involution [OF wf u] wf show ?thesis
    unfolding c by blast
qed

section \<open>Loading the Ghostscript module\<close>

text \<open>
  \<^verbatim>\<open>GhostscriptWASM.loadModule\<close> is an asynchronous function: between two
  \<^verbatim>\<open>await\<close>s a call runs without interruption, and at an \<^verbatim>\<open>await\<close> other calls
  may run. The model is a transition system. A state holds the fields of the object
  (\<^verbatim>\<open>gs\<close>, \<^verbatim>\<open>isLoaded\<close>, \<^verbatim>\<open>isLoading\<close>, \<^verbatim>\<open>module\<close>), for every call of
  \<^verbatim>\<open>loadModule\<close> made so far the \<^verbatim>\<open>await\<close> it is suspended at (or how it ended)
  together with whether it was given a progress callback, and the messages the callbacks
  have received. A callback only receives messages; it raises nothing.

  A call of \<^verbatim>\<open>loadModule\<close> is at one of: the timer of its polling loop; inside
  \<^verbatim>\<open>await this.loadRealModule(...)\<close>; returned; thrown. Inside
  \<^verbatim>\<open>loadRealModule\<close> it is at one of: \<^verbatim>\<open>await import(...)\<close>;
  \<^verbatim>\<open>await initGhostscript(...)\<close>; the timer of step \<open>k\<close> of \<^verbatim>\<open>loadMockModule\<close>;
  returned; thrown.
\<close>

datatype ghostscript = Ghostscript

datatype compress_interface = CompressPDF

datatype real_pc =
    AwaitImport
  | AwaitInit
  | AwaitMockStep nat
  | RealFulfilled
  | RealRejected

datatype pc =
    Polling
  | InLoadRealModule real_pc
  | Returned
  | Thrown

record gs_state =
  gs :: "ghostscript option"
  isLoaded :: bool
  isLoading :: bool
  module :: "compress_interface option"
  calls :: "(pc \<times> bool) list"
  progress :: "(nat \<times> string \<times> nat) list"

definition new_GhostscriptWASM :: gs_state where
  "new_GhostscriptWASM =
     \<lparr>gs = None, isLoaded = False, isLoading = False, module = None, calls = [], progress = []\<rparr>"

definition getStatus :: "gs_state \<Rightarrow> string" where
  "getStatus s = (if isLoading s then ''loading''
                  else if isLoaded s then ''ready''
                  else ''not-loaded'')"

text \<open>
  The events are what the environment does: a new call of \<^verbatim>\<open>loadModule\<close> (with or
  without a callback), the timer a call waits for fires, the import or the initialisation
  a call waits for resolves or rejects (an exception raised by calling
  \<^verbatim>\<open>initGhostscript\<close> is a rejection too), and the continuation of
  \<^verbatim>\<open>await this.loadRealModule(...)\<close> runs. \<open>step e s\<close> runs the code from the event
  to the next \<^verbatim>\<open>await\<close> or to the end of the call; it is \<open>None\<close> when no call waits
  for the event.

  Both \<^verbatim>\<open>await\<close>s of \<^verbatim>\<open>loadRealModule\<close> stand inside its \<^verbatim>\<open>try\<close> block, so a
  rejection runs its \<^verbatim>\<open>catch\<close> block, which reports the fallback and starts
  \<^verbatim>\<open>loadMockModule\<close>. The \<^verbatim>\<open>catch\<close> block of \<^verbatim>\<open>loadModule\<close> runs when
  \<^verbatim>\<open>loadRealModule\<close> has rejected: it clears \<^verbatim>\<open>isLoading\<close> and throws.
\<close>

datatype event =
    Call bool
  | TimerFires nat
  | ImportResolves nat
  | ImportRejects nat
  | InitResolves nat
  | InitRejects nat
  | Resumes nat

definition notify :: "nat \<Rightarrow> string \<Rightarrow> nat \<Rightarrow> gs_state \<Rightarrow> gs_state" where
  "notify t text percent s =
     (if snd (calls s ! t) then s\<lparr>progress := progress s @ [(t, text, percent)]\<rparr> else s)"

definition goto :: "nat \<Rightarrow> pc \<Rightarrow> gs_state \<Rightarrow> gs_state" where
  "goto t p s = s\<lparr>calls := (calls s)[t := (p, snd (calls s ! t))]\<rparr>"

definition mock_steps :: "(string \<times> nat) list" where
  "mock_steps =
     [(''Downloading Ghostscript WASM...'', 20),
      (''Initializing WebAssembly...'', 40),
      (''Setting up virtual filesystem...'', 60),
      (''Loading Ghostscript engine...'', 80),
      (''Ready for compression!'', 100)]"

definition loadMockModule_step :: "nat \<Rightarrow> nat \<Rightarrow> gs_state \<Rightarrow> gs_state" where
  "loadMockModule_step t k s =
     (if k < length mock_steps
      then goto t (InLoadRealModule (AwaitMockStep k))
             (notify t (fst (mock_steps ! k)) (snd (mock_steps ! k)) s)
      else goto t (InLoadRealModule RealFulfilled) (s\<lparr>module := Some CompressPDF\<rparr>))"

definition loadRealModule_catch :: "nat \<Rightarrow> gs_state \<Rightarrow> gs_state" where
  "loadRealModule_catch t s =
     loadMockModule_step t 0 (notify t ''Using fallback compression...'' 50 s)"

definition loadModule_call :: "bool \<Rightarrow> gs_state \<Rightarrow> gs_state" where
  "loadModule_call cb s =
     (let t = length (calls s) in
      if isLoaded s then s\<lparr>calls := calls s @ [(Returned, cb)]\<rparr>
      else if isLoading s then s\<lparr>calls := calls s @ [(Polling, cb)]\<rparr>
      else notify t ''Loading Ghostscript module...'' 20
             (notify t ''Downloading Ghostscript WASM (16MB)...'' 10
                (s\<lparr>isLoading := True,
                   calls := calls s @ [(InLoadRealModule AwaitImport, cb)]\<rparr>)))"

definition step :: "event \<Rightarrow> gs_state \<Rightarrow> gs_state option" where
  "step e s =
     (case e of
        Call cb \<Rightarrow> Some (loadModule_call cb s)
      | TimerFires t \<Rightarrow>
          if t < length (calls s) then
            (case fst (calls s ! t) of
               Polling \<Rightarrow> Some (if isLoading s then s else goto t Returned s)
             | InLoadRealModule (AwaitMockStep k) \<Rightarrow> Some (loadMockModule_step t (Suc k) s)
             | _ \<Rightarrow> None)
          else None
      | ImportResolves t \<Rightarrow>
          if t < length (calls s) \<and> fst (calls s ! t) = InLoadRealModule AwaitImport
          then Some (goto t (InLoadRealModule AwaitInit)
                       (notify t ''Initializing WebAssembly...'' 40 s))
          else None
      | ImportRejects t \<Rightarrow>
          if t < length (calls s) \<and> fst (calls s ! t) = InLoadRealModule AwaitImport
          then Some (loadRealModule_catch t s)
          else None
      | InitResolves t \<Rightarrow>
          if t < length (calls s) \<and> fst (calls s ! t) = InLoadRealModule AwaitInit
          then Some (goto t (InLoadRealModule RealFulfilled)
                       ((notify t ''Ghostscript WASM ready!'' 100 (s\<lparr>gs := Some Ghostscript\<rparr>))
                          \<lparr>module := Some CompressPDF\<rparr>))
          else None
      | InitRejects t \<Rightarrow>
          if t < length (calls s) \<and> fst (calls s ! t) = InLoadRealModule AwaitInit
          then Some (loadRealModule_catch t s)
          else None
      | Resumes t \<Rightarrow>
          if t < length (calls s) then
            (case fst (calls s ! t) of
               InLoadRealModule RealFulfilled \<Rightarrow>
                 Some (goto t Returned (s\<lparr>isLoaded := True, isLoading := False\<rparr>))
             | InLoadRealModule RealRejected \<Rightarrow>
                 Some (goto t Thrown (s\<lparr>isLoading := False\<rparr>))
             | _ \<Rightarrow> None)
          else None)"

fun run :: "event list \<Rightarrow> gs_state \<Rightarrow> gs_state option" where
  "run [] s = Some s"
| "run (e # es) s = (case step e s of None \<Rightarrow> None | Some s' \<Rightarrow> run es s')"

text \<open>
  The invariant of the reachable states: \<^verbatim>\<open>isLoading\<close> holds exactly when some call
  is inside \<^verbatim>\<open>loadRealModule\<close>, there is at most one such call, a loaded module is
  not loading, no call has thrown, and \<^verbatim>\<open>gs\<close> is set only by a load that has
  succeeded.
\<close>

definition pc_of :: "gs_state \<Rightarrow> nat \<Rightarrow> pc" where
  "pc_of s t = fst (calls s ! t)"

fun in_load :: "pc \<Rightarrow> bool" where
  "in_load (InLoadRealModule r) = True"
| "in_load p = False"

definition loader_inv :: "gs_state \<Rightarrow> bool" where
  "loader_inv s \<longleftrightarrow>
     (isLoading s \<longleftrightarrow> (\<exists>t < length (calls s). in_load (pc_of s t)))
     \<and> (\<forall>t u. t < length (calls s) \<and> u < length (calls s)
               \<and> in_load (pc_of s t) \<and> in_load (pc_of s u) \<longrightarrow> t = u)
     \<and> (isLoaded s \<longrightarrow> \<not> isLoading s)
     \<and> (\<forall>t < length (calls s). pc_of s t \<noteq> Thrown \<and> pc_of s t \<noteq> InLoadRealModule RealRejected)
     \<and> (gs s \<noteq> None \<longrightarrow>
           isLoaded s \<or> (\<exists>t < length (calls s). pc_of s t = InLoadRealModule RealFulfilled))"

lemma notify_fields [simp]:
  "calls (notify t x p s) = calls s" "isLoaded (notify t x p s) = isLoaded s"
  "isLoading (notify t x p s) = isLoading s" "gs (notify t x p s) = gs s"
  "module (notify t x p s) = module s" "pc_of (notify t x p s) u = pc_of s u"
  by (simp_all add: notify_def pc_of_def)

lemma goto_fields [simp]:
  "length (calls (goto t p s)) = length (calls s)" "isLoaded (goto t p s) = isLoaded s"
  "isLoading (goto t p s) = isLoading s" "gs (goto t p s) = gs s"
  "module (goto t p s) = module s"
  by (simp_all add: goto_def)

lemma pc_of_goto [simp]:
  "t < length (calls s) \<Longrightarrow> pc_of (goto t p s) u = (if u = t then p else pc_of s u)"
  by (simp add: goto_def pc_of_def nth_list_update)

lemma pc_of_update [simp]:
  "pc_of (s\<lparr>isLoaded := a\<rparr>) u = pc_of s u" "pc_of (s\<lparr>isLoading := b\<rparr>) u = pc_of s u"
  "pc_of (s\<lparr>gs := c\<rparr>) u = pc_of s u" "pc_of (s\<lparr>module := d\<rparr>) u = pc_of s u"
  by (simp_all add: pc_of_def)

lemma mock_step_fields [simp]:
  "length (calls (loadMockModule_step t k s)) = length (calls s)"
  "isLoaded (loadMockModule_step t k s) = isLoaded s"
  "isLoading (loadMockModule_step t k s) = isLoading s"
  "gs (loadMockModule_step t k s) = gs s"
  by (simp_all add: loadMockModule_step_def)

lemma pc_of_mock_step [simp]:
  "t < length (calls s) \<Longrightarrow>
   pc_of (loadMockModule_step t k s) u =
     (if u = t then InLoadRealModule (if k < 5 then AwaitMockStep k else RealFulfilled)
      else pc_of s u)"
  by (simp add: loadMockModule_step_def mock_steps_def)

lemma catch_fields [simp]:
  "length (calls (loadRealModule_catch t s)) = length (calls s)"
  "isLoaded (loadRealModule_catch t s) = isLoaded s"
  "isLoading (loadRealModule_catch t s) = isLoading s"
  "gs (loadRealModule_catch t s) = gs s"
  by (simp_all add: loadRealModule_catch_def)

lemma pc_of_catch [simp]:
  "t < length (calls s) \<Longrightarrow>
   pc_of (loadRealModule_catch t s) u =
     (if u = t then InLoadRealModule (AwaitMockStep 0) else pc_of s u)"
  by (simp add: loadRealModule_catch_def)

lemma call_fields [simp]:
  "length (calls (loadModule_call cb s)) = Suc (length (calls s))"
  "isLoaded (loadModule_call cb s) = isLoaded s"
  "isLoading (loadModule_call cb s) = (isLoading s \<or> \<not> isLoaded s)"
  "gs (loadModule_call cb s) = gs s"
  "module (loadModule_call cb s) = module s"
  by (auto simp add: loadModule_call_def Let_def)

lemma pc_of_call [simp]:
  "u \<le> length (calls s) \<Longrightarrow>
   pc_of (loadModule_call cb s) u =
     (if u = length (calls s)
      then (if isLoaded s then Returned else if isLoading s then Polling
            else InLoadRealModule AwaitImport)
      else pc_of s u)"
  by (auto simp add: loadModule_call_def Let_def pc_of_def nth_append)

lemma loader_inv_Call: "loader_inv s \<Longrightarrow> loader_inv (loadModule_call cb s)"
  unfolding loader_inv_def
  apply (intro conjI)
      apply (auto simp add: less_Suc_eq)
  done

lemma in_load_iff: "in_load p \<longleftrightarrow> (\<exists>r. p = InLoadRealModule r)"
  by (cases p) simp_all

lemma loader_inv_outside_load:
  assumes "loader_inv s" and "t < length (calls s)" and "\<not> in_load (pc_of s t)"
    and "\<forall>u. pc_of s' u = (if u = t then p else pc_of s u)"
    and "length (calls s') = length (calls s)"
    and "isLoaded s' = isLoaded s" and "isLoading s' = isLoading s" and "gs s' = gs s"
    and "\<not> in_load p" and "p \<noteq> Thrown"
  shows "loader_inv s'"
proof -
  have a: "in_load (pc_of s' u) = in_load (pc_of s u)" for u
    using assms(3,4,9) by simp
  have b: "pc_of s' u = InLoadRealModule r \<longleftrightarrow> pc_of s u = InLoadRealModule r" for u r
    using assms(3,4,9) by (auto simp add: in_load_iff)
  have c: "pc_of s' u \<noteq> Thrown" if "u < length (calls s)" for u
    using assms(1,4,10) that unfolding loader_inv_def by auto
  show ?thesis
    using assms(1) c unfolding loader_inv_def a b assms(5-8) by blast
qed

lemma loader_inv_within_load:
  assumes "loader_inv s" and "t < length (calls s)" and "pc_of s t = InLoadRealModule r"
    and "\<forall>u. pc_of s' u = (if u = t then InLoadRealModule r' else pc_of s u)"
    and "length (calls s') = length (calls s)"
    and "isLoaded s' = isLoaded s" and "isLoading s' = isLoading s"
    and "r' \<noteq> RealRejected"
    and "gs s' = gs s \<or> r' = RealFulfilled"
    and "r = RealFulfilled \<longrightarrow> r' = RealFulfilled"
  shows "loader_inv s'"
proof -
  from assms(1-3) have l: "isLoading s" and nl: "\<not> isLoaded s"
    unfolding loader_inv_def by (auto simp add: in_load_iff)
  have only: "\<And>u. u < length (calls s) \<Longrightarrow> in_load (pc_of s u) \<Longrightarrow> u = t"
    using assms(1-3) unfolding loader_inv_def by (auto simp add: in_load_iff)
  show ?thesis
    unfolding loader_inv_def
  proof (intro conjI)
    show "isLoading s' \<longleftrightarrow> (\<exists>t < length (calls s'). in_load (pc_of s' t))"
      using assms(2,4,5,7) l by auto
    show "\<forall>t u. t < length (calls s') \<and> u < length (calls s')
               \<and> in_load (pc_of s' t) \<and> in_load (pc_of s' u) \<longrightarrow> t = u"
      using assms(4,5) only by (auto split: if_splits)
    show "isLoaded s' \<longrightarrow> \<not> isLoading s'"
      using assms(6) nl by simp
    show "\<forall>t < length (calls s'). pc_of s' t \<noteq> Thrown
              \<and> pc_of s' t \<noteq> InLoadRealModule RealRejected"
      using assms(1,4,5,8) unfolding loader_inv_def by auto
    show "gs s' \<noteq> None \<longrightarrow>
           isLoaded s' \<or> (\<exists>t < length (calls s'). pc_of s' t = InLoadRealModule RealFulfilled)"
    proof
      assume g: "gs s' \<noteq> None"
      show "isLoaded s' \<or> (\<exists>t < length (calls s'). pc_of s' t = InLoadRealModule RealFulfilled)"
      proof (cases "r' = RealFulfilled")
        case True
        then show ?thesis using assms(2,4,5) by auto
      next
        case False
        with assms(9,10) g have "gs s \<noteq> None" and "r \<noteq> RealFulfilled" by auto
        with assms(1) nl obtain u where "u < length (calls s)"
          and "pc_of s u = InLoadRealModule RealFulfilled"
          unfolding loader_inv_def by auto
        with only [of u] assms(3) \<open>r \<noteq> RealFulfilled\<close> show ?thesis by auto
      qed
    qed
  qed
qed

lemma loader_inv_only_load:
  assumes "loader_inv s" and "t < length (calls s)" and "in_load (pc_of s t)"
  shows "isLoading s" and "\<not> isLoaded s"
    and "\<And>u. u < length (calls s) \<Longrightarrow> in_load (pc_of s u) \<Longrightarrow> u = t"
  using assms unfolding loader_inv_def by blast+

lemma loader_inv_resume:
  assumes "loader_inv s" and "t < length (calls s)" and "pc_of s t = InLoadRealModule RealFulfilled"
  shows "loader_inv (goto t Returned (s\<lparr>isLoaded := True, isLoading := False\<rparr>))"
proof -
  have il: "in_load (pc_of s t)" using assms(3) by simp
  note only = loader_inv_only_load(3) [OF assms(1,2) il]
  have no: "pc_of s u \<noteq> Thrown" if "u < length (calls s)" for u
    using assms(1) that unfolding loader_inv_def by blast
  have nr: "pc_of s u \<noteq> InLoadRealModule RealRejected" if "u < length (calls s)" for u
    using assms(1) that unfolding loader_inv_def by blast
  show ?thesis
    unfolding loader_inv_def using assms(2) only no nr by auto
qed

lemma loader_inv_step:
  assumes "loader_inv s" and "step e s = Some s'"
  shows "loader_inv s'"
proof (cases e)
  case (Call cb)
  with assms show ?thesis by (auto simp add: step_def loader_inv_Call)
next
  case (TimerFires t)
  with assms(2) have t: "t < length (calls s)"
    by (auto simp add: step_def split: if_splits)
  show ?thesis
  proof (cases "pc_of s t")
    case Polling
    show ?thesis
    proof (cases "isLoading s")
      case True
      with assms TimerFires t Polling show ?thesis
        by (simp add: step_def pc_of_def)
    next
      case False
      with assms(2) TimerFires t Polling have s': "s' = goto t Returned s"
        by (simp add: step_def pc_of_def)
      show ?thesis
        unfolding s' by (rule loader_inv_outside_load [OF assms(1) t, where p = Returned])
          (use t Polling in simp_all)
    qed
  next
    case (InLoadRealModule r)
    with assms(2) TimerFires t obtain k where r: "r = AwaitMockStep k"
      and s': "s' = loadMockModule_step t (Suc k) s"
      by (cases r) (auto simp add: step_def pc_of_def)
    show ?thesis
      unfolding s'
      by (rule loader_inv_within_load [OF assms(1) t, where r = r
            and r' = "if Suc k < 5 then AwaitMockStep (Suc k) else RealFulfilled"])
        (use t InLoadRealModule r in simp_all)
  next
    case Returned
    with assms(2) TimerFires t show ?thesis by (simp add: step_def pc_of_def)
  next
    case Thrown
    with assms(2) TimerFires t show ?thesis by (simp add: step_def pc_of_def)
  qed
next
  case (ImportResolves t)
  with assms(2) have t: "t < length (calls s)" and p: "pc_of s t = InLoadRealModule AwaitImport"
    and s': "s' = goto t (InLoadRealModule AwaitInit) (notify t ''Initializing WebAssembly...'' 40 s)"
    by (auto simp add: step_def pc_of_def split: if_splits)
  show ?thesis
    unfolding s'
    by (rule loader_inv_within_load [OF assms(1) t p, where r' = AwaitInit]) (use t in simp_all)
next
  case (ImportRejects t)
  with assms(2) have t: "t < length (calls s)" and p: "pc_of s t = InLoadRealModule AwaitImport"
    and s': "s' = loadRealModule_catch t s"
    by (auto simp add: step_def pc_of_def split: if_splits)
  show ?thesis
    unfolding s'
    by (rule loader_inv_within_load [OF assms(1) t p, where r' = "AwaitMockStep 0"]) (use t in simp_all)
next
  case (InitResolves t)
  with assms(2) have t: "t < length (calls s)" and p: "pc_of s t = InLoadRealModule AwaitInit"
    and s': "s' = goto t (InLoadRealModule RealFulfilled)
                       ((notify t ''Ghostscript WASM ready!'' 100 (s\<lparr>gs := Some Ghostscript\<rparr>))
                          \<lparr>module := Some CompressPDF\<rparr>)"
    by (auto simp add: step_def pc_of_def split: if_splits)
  show ?thesis
    unfolding s'
    by (rule loader_inv_within_load [OF assms(1) t p, where r' = RealFulfilled]) (use t in simp_all)
next
  case (InitRejects t)
  with assms(2) have t: "t < length (calls s)" and p: "pc_of s t = InLoadRealModule AwaitInit"
    and s': "s' = loadRealModule_catch t s"
    by (auto simp add: step_def pc_of_def split: if_splits)
  show ?thesis
    unfolding s'
    by (rule loader_inv_within_load [OF assms(1) t p, where r' = "AwaitMockStep 0"]) (use t in simp_all)
next
  case (Resumes t)
  with assms(2) have t: "t < length (calls s)"
    by (auto simp add: step_def split: if_splits)
  have nr: "pc_of s t \<noteq> InLoadRealModule RealRejected"
    using assms(1) t unfolding loader_inv_def by blast
  with assms(2) Resumes t have p: "pc_of s t = InLoadRealModule RealFulfilled"
    and s': "s' = goto t Returned (s\<lparr>isLoaded := True, isLoading := False\<rparr>)"
    by (auto simp add: step_def pc_of_def split: pc.splits real_pc.splits)
  show ?thesis unfolding s' by (rule loader_inv_resume [OF assms(1) t p])
qed

lemma loader_inv_new: "loader_inv new_GhostscriptWASM"
  by (simp add: loader_inv_def new_GhostscriptWASM_def)

lemma loader_inv_run: "loader_inv s \<Longrightarrow> run evs s = Some s' \<Longrightarrow> loader_inv s'"
  by (induction evs arbitrary: s) (auto split: option.splits dest: loader_inv_step)

fun call_of :: "event \<Rightarrow> nat option" where
  "call_of (Call cb) = None"
| "call_of (TimerFires t) = Some t"
| "call_of (ImportResolves t) = Some t"
| "call_of (ImportRejects t) = Some t"
| "call_of (InitResolves t) = Some t"
| "call_of (InitRejects t) = Some t"
| "call_of (Resumes t) = Some t"

lemma step_enabled:
  assumes "step e s = Some s'" and "call_of e = Some u"
  shows "u < length (calls s)"
  using assms by (cases e) (auto simp add: step_def split: if_splits)

lemma step_needs_load:
  assumes "step e s = Some s'" and "call_of e = Some u" and "\<not> in_load (pc_of s u)"
  shows "e = TimerFires u \<and> pc_of s u = Polling
         \<and> s' = (if isLoading s then s else goto u Returned s)"
  using assms
  by (cases e; cases "pc_of s u")
    (auto simp add: step_def pc_of_def split: if_splits real_pc.splits)

lemma step_other:
  assumes "loader_inv s" and "t < length (calls s)" and "in_load (pc_of s t) \<or> isLoaded s"
    and "step e s = Some s'" and "call_of e \<noteq> Some t"
  shows "pc_of s' t = pc_of s t \<and> gs s' = gs s \<and> module s' = module s
         \<and> isLoaded s' = isLoaded s \<and> isLoading s' = isLoading s
         \<and> t < length (calls s')"
proof (cases "call_of e")
  case None
  then obtain cb where "e = Call cb" by (cases e) simp_all
  with assms show ?thesis
    by (auto simp add: step_def loader_inv_def)
next
  case (Some u)
  with assms(5) have ut: "u \<noteq> t" by simp
  have u: "u < length (calls s)" using assms(4) Some by (rule step_enabled)
  have "\<not> in_load (pc_of s u)"
  proof
    assume il: "in_load (pc_of s u)"
    from loader_inv_only_load [OF assms(1) u il] assms(2,3) ut show False by blast
  qed
  from step_needs_load [OF assms(4) Some this] u ut assms(2) show ?thesis
    by auto
qed

text \<open>
  The fallback path of a call: the five timers of \<^verbatim>\<open>loadMockModule\<close>, then the return
  of \<^verbatim>\<open>loadRealModule\<close>, then the return of \<^verbatim>\<open>loadModule\<close>. \<open>remaining k t\<close> are the
  events of call \<open>t\<close> that are still to come at stage \<open>k\<close>.
\<close>

definition stage :: "nat \<Rightarrow> pc" where
  "stage k = (if k < 5 then InLoadRealModule (AwaitMockStep k)
              else if k = 5 then InLoadRealModule RealFulfilled
              else Returned)"

definition stage_ok :: "nat \<Rightarrow> nat \<Rightarrow> gs_state \<Rightarrow> bool" where
  "stage_ok t k s \<longleftrightarrow>
     loader_inv s \<and> t < length (calls s) \<and> gs s = None \<and> pc_of s t = stage k \<and> k \<le> 6
     \<and> (5 \<le> k \<longrightarrow> module s = Some CompressPDF) \<and> (k = 6 \<longrightarrow> isLoaded s)"

definition remaining :: "nat \<Rightarrow> nat \<Rightarrow> event list" where
  "remaining k t = replicate (5 - k) (TimerFires t) @ (if k \<le> 5 then [Resumes t] else [])"

lemma remaining_Cons:
  "k \<le> 5 \<Longrightarrow> remaining k t = (if k < 5 then TimerFires t else Resumes t) # remaining (Suc k) t"
  by (cases "k < 5") (simp_all add: remaining_def Suc_diff_le replicate_Suc [symmetric] del: replicate_Suc)

lemma remaining_6: "remaining 6 t = []"
  by (simp add: remaining_def)

lemma stage_other:
  assumes "stage_ok t k s" and "step e s = Some s'" and "call_of e \<noteq> Some t"
  shows "stage_ok t k s'"
proof -
  from assms(1) have i: "loader_inv s" and t: "t < length (calls s)"
    and l: "in_load (pc_of s t) \<or> isLoaded s"
    by (auto simp add: stage_ok_def stage_def)
  from step_other [OF i t l assms(2,3)] loader_inv_step [OF i assms(2)] assms(1)
  show ?thesis by (simp add: stage_ok_def)
qed

lemma stage_own:
  assumes "stage_ok t k s" and "k < 6"
    and "step (if k < 5 then TimerFires t else Resumes t) s = Some s'"
  shows "stage_ok t (Suc k) s'"
proof -
  from assms(1) have i: "loader_inv s" and t: "t < length (calls s)"
    and p: "fst (calls s ! t) = stage k" and g: "gs s = None"
    by (simp_all add: stage_ok_def pc_of_def)
  have i': "loader_inv s'" using i assms(3) by (rule loader_inv_step)
  show ?thesis
  proof (cases "k < 5")
    case True
    with assms(3) t p have s': "s' = loadMockModule_step t (Suc k) s"
      by (simp add: step_def stage_def)
    show ?thesis
      using True t g i' unfolding s'
      by (auto simp add: stage_ok_def stage_def loadMockModule_step_def mock_steps_def)
  next
    case False
    with assms(2) have k: "k = 5" by simp
    with assms(3) t p
    have s': "s' = goto t Returned (s\<lparr>isLoaded := True, isLoading := False\<rparr>)"
      by (simp add: step_def stage_def)
    show ?thesis
      using k t g i' assms(1) unfolding s'
      by (auto simp add: stage_ok_def stage_def)
  qed
qed

lemma stage_run:
  assumes "run evs s = Some s'"
  shows "stage_ok t k s \<Longrightarrow> filter (\<lambda>x. call_of x = Some t) evs = remaining k t \<Longrightarrow> stage_ok t 6 s'"
  using assms
proof (induction evs arbitrary: s k)
  case Nil
  then have "remaining k t = []" by simp
  then have "\<not> k \<le> 5" by (auto simp add: remaining_def)
  moreover have "k \<le> 6" using Nil.prems(1) by (simp add: stage_ok_def)
  ultimately have "k = 6" by simp
  with Nil show ?case by simp
next
  case (Cons e evs)
  from Cons.prems(3) obtain s1 where s1: "step e s = Some s1" and r: "run evs s1 = Some s'"
    by (auto split: option.splits)
  show ?case
  proof (cases "call_of e = Some t")
    case True
    with Cons.prems(2) have f: "e # filter (\<lambda>x. call_of x = Some t) evs = remaining k t"
      by simp
    then have k5: "k \<le> 5" using Cons.prems(1)
      by (cases "k = 6") (auto simp add: remaining_6 stage_ok_def)
    from f remaining_Cons [OF k5, of t]
    have e: "e = (if k < 5 then TimerFires t else Resumes t)"
      and f': "filter (\<lambda>x. call_of x = Some t) evs = remaining (Suc k) t"
      by simp_all
    have "stage_ok t (Suc k) s1"
      using Cons.prems(1) k5 s1 unfolding e by (intro stage_own) simp_all
    from Cons.IH [OF this f' r] show ?thesis .
  next
    case False
    with Cons.prems(2) have f': "filter (\<lambda>x. call_of x = Some t) evs = remaining k t"
      by simp
    have "stage_ok t k s1" using Cons.prems(1) s1 False by (rule stage_other)
    from Cons.IH [OF this f' r] show ?thesis .
  qed
qed

lemma stage_enabled:
  assumes "stage_ok t k s" and "k < 6"
  shows "\<exists>s'. step (if k < 5 then TimerFires t else Resumes t) s = Some s'"
  using assms
  by (auto simp add: stage_ok_def stage_def step_def pc_of_def)

lemma own_run:
  "stage_ok t k s \<Longrightarrow> \<exists>s'. run (remaining k t) s = Some s'"
proof (induction "6 - k" arbitrary: k s)
  case 0
  then have "k = 6" by (simp add: stage_ok_def)
  then show ?case by (simp add: remaining_6)
next
  case (Suc n)
  then have k: "k < 6" "k \<le> 5" by simp_all
  from stage_enabled [OF Suc.prems k(1)] obtain s1
    where s1: "step (if k < 5 then TimerFires t else Resumes t) s = Some s1" ..
  have "stage_ok t (Suc k) s1" using Suc.prems k(1) s1 by (rule stage_own)
  moreover have "n = 6 - Suc k" using Suc.hyps(2) by simp
  ultimately obtain s' where "run (remaining (Suc k) t) s1 = Some s'"
    using Suc.hyps(1) by blast
  with s1 show ?case
    unfolding remaining_Cons [OF k(2)] by simp
qed

lemma step_pc_other:
  assumes "step e s = Some s'" and "call_of e \<noteq> Some t" and "t < length (calls s)"
  shows "pc_of s' t = pc_of s t \<and> t < length (calls s')"
  using assms
  by (cases e) (auto simp add: step_def split: if_splits pc.splits real_pc.splits)

lemma run_length:
  "run evs s = Some s' \<Longrightarrow> t < length (calls s) \<Longrightarrow> t < length (calls s')"
proof (induction evs arbitrary: s)
  case Nil
  then show ?case by simp
next
  case (Cons e evs)
  from Cons.prems(1) obtain s1 where s1: "step e s = Some s1" and r: "run evs s1 = Some s'"
    by (auto split: option.splits)
  have "t < length (calls s1)"
    using s1 Cons.prems(2)
    by (cases e) (auto simp add: step_def split: if_splits pc.splits real_pc.splits)
  with Cons.IH [OF r] show ?case .
qed

lemma reachable_inv: "run evs new_GhostscriptWASM = Some s \<Longrightarrow> loader_inv s"
  using loader_inv_new by (rule loader_inv_run)

lemmas gs_eval = step_def loadModule_call_def loadRealModule_catch_def loadMockModule_step_def
  mock_steps_def notify_def goto_def new_GhostscriptWASM_def pc_of_def Let_def

text \<open>
  Claim C5. Take any reachable state and a call that waits for the import or for the
  initialisation of the real module, and let that import or initialisation reject. Then,
  whatever happens afterwards, the call never ends up thrown and \<^verbatim>\<open>loadRealModule\<close>
  never rejects: the rejection starts \<^verbatim>\<open>loadMockModule\<close> instead, and the five timers
  of the mock loader and the resumption of the call can always run. Once they have run,
  in any interleaving with the events of other calls, the call has returned, the
  compression interface is installed with no real Ghostscript behind it, \<^verbatim>\<open>isLoaded\<close>
  is true, \<^verbatim>\<open>isLoading\<close> is false and \<^verbatim>\<open>getStatus()\<close> is \<open>ready\<close>.
\<close>

theorem load_failure_falls_back:
  assumes "run evs0 new_GhostscriptWASM = Some s"
    and "t < length (calls s)"
    and "pc_of s t = InLoadRealModule AwaitImport \<and> e = ImportRejects t
         \<or> pc_of s t = InLoadRealModule AwaitInit \<and> e = InitRejects t"
    and "run (e # evs) s = Some s'"
  shows "pc_of s' t \<noteq> Thrown \<and> pc_of s' t \<noteq> InLoadRealModule RealRejected
       \<and> (\<exists>s1. step e s = Some s1 \<and> pc_of s1 t = InLoadRealModule (AwaitMockStep 0)
                \<and> gs s1 = None)
       \<and> (\<exists>s2. run (e # replicate 5 (TimerFires t) @ [Resumes t]) s = Some s2)
       \<and> (filter (\<lambda>x. call_of x = Some t) evs = replicate 5 (TimerFires t) @ [Resumes t] \<longrightarrow>
            pc_of s' t = Returned \<and> module s' = Some CompressPDF \<and> gs s' = None
            \<and> isLoaded s' \<and> \<not> isLoading s' \<and> getStatus s' = ''ready'')"
proof -
  have i: "loader_inv s" using assms(1) by (rule reachable_inv)
  have il: "in_load (pc_of s t)" using assms(3) by auto
  have nf: "pc_of s t \<noteq> InLoadRealModule RealFulfilled" using assms(3) by auto
  have g: "gs s = None"
  proof (rule ccontr)
    assume "gs s \<noteq> None"
    with i loader_inv_only_load(2) [OF i assms(2) il]
    obtain u where u: "u < length (calls s)" and pu: "pc_of s u = InLoadRealModule RealFulfilled"
      unfolding loader_inv_def by blast
    from loader_inv_only_load(3) [OF i assms(2) il u] pu have "u = t" by simp
    with pu nf show False by simp
  qed
  define s1 where "s1 = loadRealModule_catch t s"
  have st: "step e s = Some s1"
    using assms(2,3) by (auto simp add: step_def s1_def pc_of_def)
  have p1: "pc_of s1 t = InLoadRealModule (AwaitMockStep 0)" and g1: "gs s1 = None"
    using assms(2) g by (simp_all add: s1_def)
  have i1: "loader_inv s1" using i st by (rule loader_inv_step)
  have r: "run evs s1 = Some s'" using assms(4) st by simp
  have i': "loader_inv s'" using i1 r by (rule loader_inv_run)
  have t': "t < length (calls s')"
    using r by (rule run_length) (use assms(2) in \<open>simp add: s1_def\<close>)
  have a: "pc_of s' t \<noteq> Thrown \<and> pc_of s' t \<noteq> InLoadRealModule RealRejected"
    using i' t' unfolding loader_inv_def by blast
  have b: "\<exists>s1. step e s = Some s1 \<and> pc_of s1 t = InLoadRealModule (AwaitMockStep 0)
                \<and> gs s1 = None"
    using st p1 g1 by blast
  have c: "pc_of s' t = Returned \<and> module s' = Some CompressPDF \<and> gs s' = None
            \<and> isLoaded s' \<and> \<not> isLoading s' \<and> getStatus s' = ''ready''"
    if f: "filter (\<lambda>x. call_of x = Some t) evs = replicate 5 (TimerFires t) @ [Resumes t]"
  proof -
    have s0: "stage_ok t 0 s1"
      using i1 p1 g1 assms(2) by (simp add: stage_ok_def stage_def s1_def)
    have "filter (\<lambda>x. call_of x = Some t) evs = remaining 0 t"
      using f by (simp add: remaining_def)
    with r s0 have "stage_ok t 6 s'" by (rule stage_run)
    then show ?thesis
      by (auto simp add: stage_ok_def stage_def loader_inv_def getStatus_def)
  qed
  have s0: "stage_ok t 0 s1"
    using i1 p1 g1 assms(2) by (simp add: stage_ok_def stage_def s1_def)
  from own_run [OF s0] obtain s2 where "run (remaining 0 t) s1 = Some s2" ..
  then have d: "\<exists>s2. run (e # replicate 5 (TimerFires t) @ [Resumes t]) s = Some s2"
    using st by (simp add: remaining_def)
  from a b c d show ?thesis by blast
qed

text \<open>
  Two calls, the first loading and the second polling; the import of the first rejects.
\<close>

theorem load_failure_falls_back_witness:
  "\<exists>s s'. run [Call False, Call False] new_GhostscriptWASM = Some s
     \<and> pc_of s 0 = InLoadRealModule AwaitImport \<and> pc_of s 1 = Polling
     \<and> run (ImportRejects 0 # [TimerFires 0, TimerFires 1, TimerFires 0, TimerFires 0,
            TimerFires 0, TimerFires 0, Resumes 0, TimerFires 1]) s = Some s'
     \<and> pc_of s' 0 = Returned \<and> module s' = Some CompressPDF \<and> gs s' = None
     \<and> isLoaded s' \<and> \<not> isLoading s' \<and> getStatus s' = ''ready''"
proof -
  define s where "s = \<lparr>gs = None, isLoaded = False, isLoading = True, module = None,
     calls = [(InLoadRealModule AwaitImport, False), (Polling, False)], progress = []\<rparr>"
  define s' where "s' = \<lparr>gs = None, isLoaded = True, isLoading = False,
     module = Some CompressPDF, calls = [(Returned, False), (Returned, False)], progress = []\<rparr>"
  let ?evs = "[TimerFires 0, TimerFires 1, TimerFires 0, TimerFires 0,
            TimerFires 0, TimerFires 0, Resumes 0, TimerFires 1]"
  have r0: "run [Call False, Call False] new_GhostscriptWASM = Some s"
    by (simp add: gs_eval s_def)
  have t: "0 < length (calls s)" by (simp add: s_def)
  have p: "pc_of s 0 = InLoadRealModule AwaitImport \<and> ImportRejects 0 = ImportRejects 0
         \<or> pc_of s 0 = InLoadRealModule AwaitInit \<and> ImportRejects 0 = InitRejects 0"
    by (simp add: s_def pc_of_def)
  have r1: "run (ImportRejects 0 # ?evs) s = Some s'"
    by (simp add: gs_eval s_def s'_def)
  have f: "filter (\<lambda>x. call_of x = Some 0) ?evs = replicate 5 (TimerFires 0) @ [Resumes 0]"
    by (simp add: numeral_eq_Suc)
  from load_failure_falls_back [OF r0 t p r1] f
  have "pc_of s' 0 = Returned \<and> module s' = Some CompressPDF \<and> gs s' = None
            \<and> isLoaded s' \<and> \<not> isLoading s' \<and> getStatus s' = ''ready''"
    by blast
  moreover have "pc_of s 0 = InLoadRealModule AwaitImport" "pc_of s 1 = Polling"
    by (simp_all add: s_def pc_of_def)
  ultimately show ?thesis using r0 r1 by blast
qed

text \<open>
  Claim C6. In every state reachable from a fresh object by any sequence of events, at
  most one call is inside \<^verbatim>\<open>loadRealModule\<close>, and \<^verbatim>\<open>isLoading\<close> holds exactly
  when there is one. A call made while \<^verbatim>\<open>isLoaded\<close> holds returns at once and changes
  nothing else; a call made while \<^verbatim>\<open>isLoading\<close> holds starts polling and changes
  nothing else; a polling call whose timer fires keeps polling while \<^verbatim>\<open>isLoading\<close>
  holds and returns once it does not; and no event ever takes a polling call anywhere but
  to polling or to returned, so it never starts a load.
\<close>

theorem at_most_one_load:
  assumes "run evs new_GhostscriptWASM = Some s"
  shows "(\<forall>t u. t < length (calls s) \<and> u < length (calls s)
              \<and> in_load (pc_of s t) \<and> in_load (pc_of s u) \<longrightarrow> t = u)
       \<and> (isLoading s \<longleftrightarrow> (\<exists>t < length (calls s). in_load (pc_of s t)))
       \<and> (isLoaded s \<longrightarrow> step (Call cb) s = Some (s\<lparr>calls := calls s @ [(Returned, cb)]\<rparr>))
       \<and> (isLoading s \<longrightarrow> step (Call cb) s = Some (s\<lparr>calls := calls s @ [(Polling, cb)]\<rparr>))
       \<and> (\<forall>t < length (calls s). pc_of s t = Polling \<longrightarrow>
             step (TimerFires t) s = Some (if isLoading s then s else goto t Returned s))
       \<and> (\<forall>t e s'. t < length (calls s) \<and> pc_of s t = Polling \<and> step e s = Some s' \<longrightarrow>
             pc_of s' t = Polling \<or> pc_of s' t = Returned)"
proof -
  have i: "loader_inv s" using assms by (rule reachable_inv)
  then have a: "\<forall>t u. t < length (calls s) \<and> u < length (calls s)
              \<and> in_load (pc_of s t) \<and> in_load (pc_of s u) \<longrightarrow> t = u"
    and b: "isLoading s \<longleftrightarrow> (\<exists>t < length (calls s). in_load (pc_of s t))"
    and n: "isLoaded s \<longrightarrow> \<not> isLoading s"
    unfolding loader_inv_def by blast+
  have c: "isLoaded s \<longrightarrow> step (Call cb) s = Some (s\<lparr>calls := calls s @ [(Returned, cb)]\<rparr>)"
    by (simp add: step_def loadModule_call_def)
  have d: "isLoading s \<longrightarrow> step (Call cb) s = Some (s\<lparr>calls := calls s @ [(Polling, cb)]\<rparr>)"
    using n by (auto simp add: step_def loadModule_call_def)
  have e: "\<forall>t < length (calls s). pc_of s t = Polling \<longrightarrow>
             step (TimerFires t) s = Some (if isLoading s then s else goto t Returned s)"
    by (simp add: step_def pc_of_def)
  have f: "pc_of s' t = Polling \<or> pc_of s' t = Returned"
    if "t < length (calls s)" and "pc_of s t = Polling" and "step e s = Some s'" for t e s'
  proof (cases "call_of e = Some t")
    case True
    from step_needs_load [OF that(3) True] that(1,2) show ?thesis by auto
  next
    case False
    from step_pc_other [OF that(3) False that(1)] that(2) show ?thesis by simp
  qed
  from a b c d e f show ?thesis by blast
qed

text \<open>
  A second call during a load, and a second call after a successful load.
\<close>

theorem at_most_one_load_witness:
  "(\<exists>s. run [Call False] new_GhostscriptWASM = Some s \<and> isLoading s
        \<and> step (Call True) s = Some (s\<lparr>calls := calls s @ [(Polling, True)]\<rparr>))
   \<and> (\<exists>s. run [Call False, ImportResolves 0, InitResolves 0, Resumes 0] new_GhostscriptWASM = Some s
        \<and> isLoaded s
        \<and> step (Call True) s = Some (s\<lparr>calls := calls s @ [(Returned, True)]\<rparr>))"
proof -
  define s1 where "s1 = \<lparr>gs = None, isLoaded = False, isLoading = True, module = None,
     calls = [(InLoadRealModule AwaitImport, False)], progress = []\<rparr>"
  define s2 where "s2 = \<lparr>gs = Some Ghostscript, isLoaded = True, isLoading = False,
     module = Some CompressPDF, calls = [(Returned, False)], progress = []\<rparr>"
  have r1: "run [Call False] new_GhostscriptWASM = Some s1"
    by (simp add: gs_eval s1_def)
  have r2: "run [Call False, ImportResolves 0, InitResolves 0, Resumes 0] new_GhostscriptWASM
              = Some s2"
    by (simp add: gs_eval s2_def)
  have l1: "isLoading s1" by (simp add: s1_def)
  have l2: "isLoaded s2" by (simp add: s2_def)
  from at_most_one_load [OF r1, of True] l1
  have a: "step (Call True) s1 = Some (s1\<lparr>calls := calls s1 @ [(Polling, True)]\<rparr>)"
    by blast
  from at_most_one_load [OF r2, of True] l2
  have b: "step (Call True) s2 = Some (s2\<lparr>calls := calls s2 @ [(Returned, True)]\<rparr>)"
    by blast
  from r1 l1 a r2 l2 b show ?thesis by blast
qed


section \<open>The mock compression fallback\<close>

text \<open>
  \<^verbatim>\<open>getCompressionRatio\<close>, \<^verbatim>\<open>getQualityDescription\<close>, \<^verbatim>\<open>simulateCompression\<close> and
  \<^verbatim>\<open>mockCompression\<close> of GhostscriptWASM. The tables of ratios and descriptions are
  object literals, and reading a property of an object literal also finds what every
  object inherits from \<^verbatim>\<open>Object.prototype\<close>: \<open>property\<close>. A value read from a table
  is a number, a text, undefined, or such an inherited member (a function, or the
  prototype object itself), which is truthy and is not a number.

  A number literal is kept as its decimal digits: \<open>Number m e\<close> is the literal
  \<open>m / 10^e\<close>. The arithmetic of the platform on doubles is a parameter:
  \<open>floor_of_product n m e\<close> is \<^verbatim>\<open>Math.floor(n * x)\<close> for the literal \<open>x\<close>, and
  \<open>reduction_text c o\<close> is \<^verbatim>\<open>((1 - c / o) * 100).toFixed(1)\<close>. A product with a value
  that is not a number is NaN, \<^verbatim>\<open>new Uint8Array(NaN)\<close> has length 0, and
  \<^verbatim>\<open>slice(0, NaN)\<close> is empty. The progress messages and the timers of
  \<^verbatim>\<open>mockCompression\<close> do not bear on its result.
\<close>

datatype js_value = Number nat nat | Text string | Undefined | Inherited string

definition object_prototype_names :: "string list" where
  "object_prototype_names =
     [''constructor'', ''__proto__'', ''hasOwnProperty'', ''isPrototypeOf'',
      ''propertyIsEnumerable'', ''toLocaleString'', ''toString'', ''valueOf'',
      ''__defineGetter__'', ''__defineSetter__'', ''__lookupGetter__'', ''__lookupSetter__'']"

definition property :: "(string \<times> js_value) list \<Rightarrow> string \<Rightarrow> js_value" where
  "property obj key =
     (case map_of obj key of
        Some v \<Rightarrow> v
      | None \<Rightarrow> if key \<in> set object_prototype_names then Inherited key else Undefined)"

fun js_truthy :: "js_value \<Rightarrow> bool" where
  "js_truthy (Number m e) = (m \<noteq> 0)"
| "js_truthy (Text t) = (t \<noteq> [])"
| "js_truthy Undefined = False"
| "js_truthy (Inherited k) = True"

definition js_or :: "js_value \<Rightarrow> js_value \<Rightarrow> js_value" where
  "js_or a b = (if js_truthy a then a else b)"

definition getQualityDescription :: "string \<Rightarrow> js_value" where
  "getQualityDescription quality =
     (let descriptions =
            [(''screen'', Text ''Screen quality (72 DPI)''),
             (''ebook'', Text ''eBook quality (150 DPI)''),
             (''printer'', Text ''Printer quality (300 DPI)''),
             (''prepress'', Text ''Prepress quality (300+ DPI)'')]
      in js_or (property descriptions quality) (property descriptions ''ebook''))"

definition getCompressionRatio :: "string \<Rightarrow> js_value" where
  "getCompressionRatio quality =
     (let ratios =
            [(''screen'', Number 3 1),
             (''ebook'', Number 5 1),
             (''printer'', Number 7 1),
             (''prepress'', Number 85 2)]
      in js_or (property ratios quality) (property ratios ''ebook''))"

definition simulateCompression :: "(nat \<Rightarrow> nat \<Rightarrow> nat \<Rightarrow> nat) \<Rightarrow> byte list \<Rightarrow> js_value \<Rightarrow> byte list" where
  "simulateCompression floor_of_product pdfData ratio =
     (let n = length pdfData;
          header = take (min 1024 n) pdfData;
          footer = drop (n - min 1024 n) pdfData;
          targetSize = (case ratio of Number m e \<Rightarrow> Some (floor_of_product n m e) | _ \<Rightarrow> None);
          simulatedData = replicate (case targetSize of None \<Rightarrow> 0 | Some k \<Rightarrow> k) 0;
          simulatedData1 =
            overwrite simulatedData 0
              (take (case targetSize of None \<Rightarrow> 0 | Some k \<Rightarrow> min (length header) (k div 2))
                 header)
      in case targetSize of
           None \<Rightarrow> simulatedData1
         | Some k \<Rightarrow>
             if k > length footer then overwrite simulatedData1 (k - length footer) footer
             else simulatedData1)"

record compression_result =
  success :: bool
  data :: "byte list"
  originalSize :: nat
  compressedSize :: nat
  reduction :: string
  quality :: js_value
  compression_method :: string

definition mockCompression ::
  "(nat \<Rightarrow> nat \<Rightarrow> nat \<Rightarrow> nat) \<Rightarrow> (nat \<Rightarrow> nat \<Rightarrow> string) \<Rightarrow> byte list \<Rightarrow> string \<Rightarrow> compression_result" where
  "mockCompression floor_of_product reduction_text pdfData quality_name =
     (let compressionRatio = getCompressionRatio quality_name;
          compressedData = simulateCompression floor_of_product pdfData compressionRatio
      in \<lparr>success = True,
          data = compressedData,
          originalSize = length pdfData,
          compressedSize = length compressedData,
          reduction = reduction_text (length compressedData) (length pdfData),
          quality = getQualityDescription quality_name,
          compression_method = ''Mock Compression (Fallback)''\<rparr>)"

text \<open>
  Claim C4, at a quality string outside the table. For a string such as \<open>zip\<close> the
  ratio is 0.5, as the claim says. For the string \<open>constructor\<close> the table lookup finds
  the inherited member, the default \<^verbatim>\<open>|| ratios['ebook']\<close> is not taken, and the
  compressed data of a two-byte input is empty, where the ratio 0.5 would give one byte.
\<close>

theorem mockCompression_inherited_quality:
  "getCompressionRatio ''zip'' = Number 5 1
   \<and> getCompressionRatio ''constructor'' = Inherited ''constructor''
   \<and> data (mockCompression floor_of_product reduction_text [37, 80] ''constructor'') = []
   \<and> originalSize (mockCompression floor_of_product reduction_text [37, 80] ''constructor'') = 2
   \<and> compressedSize (mockCompression floor_of_product reduction_text [37, 80] ''constructor'') = 0
   \<and> (2 * 5) div 10 ^ 1 = (1 :: nat)"
  by (simp add: mockCompression_def simulateCompression_def getCompressionRatio_def js_or_def
      property_def object_prototype_names_def overwrite_def)


section \<open>The state of the PrivPDF application\<close>

text \<open>
  The fields that the constructor of class \<^verbatim>\<open>PrivPDF\<close> sets up and \<^verbatim>\<open>resetTool\<close>
  clears: the loaded files by identifier, the set of selected pages, the rotation of each
  page, and the page order of the reorder tool. Files are opaque (\<open>'f\<close>).

  The document is a parameter of \<^verbatim>\<open>switchTool\<close>: \<open>querySelector_tool tool\<close> is the
  outcome of looking up the button with that \<^verbatim>\<open>data-tool\<close> value (found, not found, or
  an error raised for a selector the document rejects), \<open>getElementById_panel tool\<close>
  says whether the panel of the tool exists. Calling a method on a missing element raises a
  TypeError, before \<^verbatim>\<open>resetTool\<close> is reached. The class changes and style changes on
  elements that exist raise nothing and leave the four fields alone.
\<close>

record 'f app_state =
  currentTool :: string
  loadedPDFs :: "string \<rightharpoonup> 'f"
  selectedPages :: "int set"
  pageRotations :: "int \<rightharpoonup> int"
  pageOrder :: "int list"

definition new_PrivPDF :: "'f app_state" where
  "new_PrivPDF = \<lparr>currentTool = ''merge'', loadedPDFs = Map.empty, selectedPages = {},
                   pageRotations = Map.empty, pageOrder = []\<rparr>"

definition resetTool :: "'f app_state \<Rightarrow> 'f app_state" where
  "resetTool s = s\<lparr>loadedPDFs := Map.empty, selectedPages := {},
                    pageRotations := Map.empty, pageOrder := []\<rparr>"

definition switchTool ::
  "(string \<Rightarrow> js_error + bool) \<Rightarrow> (string \<Rightarrow> bool) \<Rightarrow> string \<Rightarrow> 'f app_state
     \<Rightarrow> js_error + 'f app_state" where
  "switchTool querySelector_tool getElementById_panel tool s =
     (case querySelector_tool tool of
        Inl e \<Rightarrow> Inl e
      | Inr found \<Rightarrow>
          if \<not> found then Inl TypeError
          else if \<not> getElementById_panel tool then Inl TypeError
          else Inr (resetTool (s\<lparr>currentTool := tool\<rparr>)))"

text \<open>
  JavaScript's \<^verbatim>\<open>%\<close> takes the sign of the dividend. \<^verbatim>\<open>pageRotations.get(p) || 0\<close>
  is 0 for a page that has no entry. \<^verbatim>\<open>rotateAllPages\<close> calls \<^verbatim>\<open>rotatePage\<close> for
  the page number of every thumbnail of the rotate tool, in document order.
\<close>

definition js_rem :: "int \<Rightarrow> int \<Rightarrow> int" where
  "js_rem a b = sgn a * (\<bar>a\<bar> mod \<bar>b\<bar>)"

definition rotatePage :: "int \<Rightarrow> int \<Rightarrow> 'f app_state \<Rightarrow> 'f app_state" where
  "rotatePage pageNum degrees s =
     (let current = (case pageRotations s pageNum of None \<Rightarrow> 0 | Some v \<Rightarrow> v);
          newRotation = js_rem (current + degrees + 360) 360
      in s\<lparr>pageRotations := (pageRotations s)(pageNum \<mapsto> newRotation)\<rparr>)"

definition rotateAllPages :: "int list \<Rightarrow> int \<Rightarrow> 'f app_state \<Rightarrow> 'f app_state" where
  "rotateAllPages thumbnails degrees s = fold (\<lambda>pageNum. rotatePage pageNum degrees) thumbnails s"

definition quarter_turns :: "'f app_state \<Rightarrow> bool" where
  "quarter_turns s \<longleftrightarrow> (\<forall>p v. pageRotations s p = Some v \<longrightarrow> v \<in> {0, 90, 180, 270})"

lemma quarter_turns_rotatePage:
  assumes "quarter_turns s" and "d = 90 \<or> d = - 90"
  shows "quarter_turns (rotatePage p d s)"
proof -
  have cur: "(case pageRotations s p of None \<Rightarrow> 0 | Some v \<Rightarrow> v) \<in> {0, 90, 180, 270}"
    using assms(1) by (auto simp add: quarter_turns_def split: option.splits)
  then have "js_rem ((case pageRotations s p of None \<Rightarrow> 0 | Some v \<Rightarrow> v) + d + 360) 360
               \<in> {0, 90, 180, 270}"
    using assms(2) by (auto simp add: js_rem_def)
  with assms(1) show ?thesis
    by (auto simp add: quarter_turns_def rotatePage_def Let_def)
qed

lemma quarter_turns_fold:
  assumes "\<forall>(p, d) \<in> set turns. d = 90 \<or> d = - 90"
  shows "quarter_turns s \<Longrightarrow> quarter_turns (fold (\<lambda>(p, d). rotatePage p d) turns s)"
  using assms
  by (induction turns arbitrary: s) (auto simp add: quarter_turns_rotatePage)

lemma quarter_turns_rotateAllPages:
  assumes "d = 90 \<or> d = - 90"
  shows "quarter_turns s \<Longrightarrow> quarter_turns (rotateAllPages ts d s)"
  unfolding rotateAllPages_def
  using assms by (induction ts arbitrary: s) (auto simp add: quarter_turns_rotatePage)

lemma quarter_turns_start:
  "quarter_turns new_PrivPDF" "quarter_turns (resetTool s)"
  by (simp_all add: quarter_turns_def new_PrivPDF_def resetTool_def)

lemma js_rem_nonneg: "0 \<le> a \<Longrightarrow> js_rem a 360 = a mod 360"
  by (cases "a = 0") (simp_all add: js_rem_def)

lemma rotatePage_value:
  assumes "quarter_turns s" and "d = 90 \<or> d = - 90"
  shows "pageRotations (rotatePage p d s) p =
           Some (((case pageRotations s p of None \<Rightarrow> 0 | Some v \<Rightarrow> v) + d + 360) mod 360)"
proof -
  have "(case pageRotations s p of None \<Rightarrow> 0 | Some v \<Rightarrow> v) \<in> {0, 90, 180, 270}"
    using assms(1) by (auto simp add: quarter_turns_def split: option.splits)
  then have "0 \<le> (case pageRotations s p of None \<Rightarrow> 0 | Some v \<Rightarrow> v) + d + 360"
    using assms(2) by auto
  then show ?thesis
    by (simp add: rotatePage_def Let_def js_rem_nonneg)
qed

text \<open>
  Claim C7. After \<^verbatim>\<open>resetTool\<close>, and so after every \<^verbatim>\<open>switchTool\<close> that returns,
  the map of loaded files, the set of selected pages and the map of rotations are empty
  and the page order is the empty list, whatever the state was before; \<^verbatim>\<open>switchTool\<close>
  returns whenever the document has the button and the panel of the tool.
\<close>

theorem switchTool_resets_state:
  "loadedPDFs (resetTool s) = Map.empty \<and> selectedPages (resetTool s) = {}
   \<and> pageRotations (resetTool s) = Map.empty \<and> pageOrder (resetTool s) = []
   \<and> (\<forall>s'. switchTool q g tool s = Inr s' \<longrightarrow>
          loadedPDFs s' = Map.empty \<and> selectedPages s' = {}
          \<and> pageRotations s' = Map.empty \<and> pageOrder s' = [] \<and> currentTool s' = tool)
   \<and> (q tool = Inr True \<and> g tool \<longrightarrow> (\<exists>s'. switchTool q g tool s = Inr s'))"
  by (auto simp add: switchTool_def resetTool_def split: sum.splits if_splits)

text \<open>
  A state with one loaded file, a selected page, a rotated page and a page order, in a
  document that has the merge and rotate tools.
\<close>

theorem switchTool_resets_state_witness:
  "(\<lambda>t. Inr (t \<in> {''merge'', ''rotate''})) ''rotate'' = (Inr True :: js_error + bool)
   \<and> (\<lambda>t. t \<in> {''merge'', ''rotate''}) ''rotate''
   \<and> (\<exists>s'. switchTool (\<lambda>t. Inr (t \<in> {''merge'', ''rotate''})) (\<lambda>t. t \<in> {''merge'', ''rotate''})
            ''rotate''
            \<lparr>currentTool = ''merge'', loadedPDFs = [''f1'' \<mapsto> ()], selectedPages = {2},
             pageRotations = [1 \<mapsto> 90], pageOrder = [2, 1]\<rparr> = Inr s'
          \<and> loadedPDFs s' = Map.empty \<and> selectedPages s' = {}
          \<and> pageRotations s' = Map.empty \<and> pageOrder s' = [] \<and> currentTool s' = ''rotate'')"
  using switchTool_resets_state [of
      "\<lparr>currentTool = ''merge'', loadedPDFs = [''f1'' \<mapsto> ()], selectedPages = {2},
             pageRotations = [1 \<mapsto> 90], pageOrder = [2, 1]\<rparr>"
      "\<lambda>t. Inr (t \<in> {''merge'', ''rotate''})" "\<lambda>t. t \<in> {''merge'', ''rotate''}" "''rotate''"]
  by auto

text \<open>
  Claim C8. Starting from a state whose stored rotations are all among 0, 90, 180 and 270
  (the constructor's state and every state after \<^verbatim>\<open>resetTool\<close> are such states), after
  any sequence of \<^verbatim>\<open>rotatePage\<close> calls with degrees 90 or -90 every stored rotation is
  among 0, 90, 180 and 270. Each such call stores \<open>(current + degrees + 360) mod 360\<close>
  for its page, and \<^verbatim>\<open>rotateAllPages\<close> keeps the property too.
\<close>

theorem rotation_is_quarter_turn:
  assumes "\<forall>(p, d) \<in> set turns. d = 90 \<or> d = - 90"
    and "quarter_turns s"
  shows "(\<forall>pageNum v. pageRotations (fold (\<lambda>(p, d). rotatePage p d) turns s) pageNum = Some v
            \<longrightarrow> v \<in> {0, 90, 180, 270})
       \<and> (\<forall>p d. d = 90 \<or> d = - 90 \<longrightarrow>
             pageRotations (rotatePage p d s) p =
               Some (((case pageRotations s p of None \<Rightarrow> 0 | Some v \<Rightarrow> v) + d + 360) mod 360))
       \<and> (\<forall>thumbnails d. d = 90 \<or> d = - 90 \<longrightarrow> quarter_turns (rotateAllPages thumbnails d s))
       \<and> quarter_turns (new_PrivPDF :: 'f app_state)
       \<and> quarter_turns (resetTool s)"
proof -
  have "quarter_turns (fold (\<lambda>(p, d). rotatePage p d) turns s)"
    using assms(1) assms(2) by (rule quarter_turns_fold)
  then have a: "\<forall>pageNum v. pageRotations (fold (\<lambda>(p, d). rotatePage p d) turns s) pageNum = Some v
            \<longrightarrow> v \<in> {0, 90, 180, 270}"
    unfolding quarter_turns_def .
  have b: "\<forall>p d. d = 90 \<or> d = - 90 \<longrightarrow>
             pageRotations (rotatePage p d s) p =
               Some (((case pageRotations s p of None \<Rightarrow> 0 | Some v \<Rightarrow> v) + d + 360) mod 360)"
    using rotatePage_value [OF assms(2)] by blast
  have c: "\<forall>thumbnails d. d = 90 \<or> d = - 90 \<longrightarrow> quarter_turns (rotateAllPages thumbnails d s)"
    using quarter_turns_rotateAllPages assms(2) by blast
  from a b c quarter_turns_start show ?thesis by blast
qed

text \<open>
  Page 1 turned right twice and page 2 turned left once, from the constructor's state.
\<close>

theorem rotation_is_quarter_turn_witness:
  "quarter_turns (new_PrivPDF :: unit app_state)
   \<and> quarter_turns (fold (\<lambda>(p, d). rotatePage p d) [(1, 90), (1, 90), (2, - 90)]
         (new_PrivPDF :: unit app_state))
   \<and> pageRotations (fold (\<lambda>(p, d). rotatePage p d) [(1, 90), (1, 90), (2, - 90)]
         (new_PrivPDF :: unit app_state)) 1 = Some 180
   \<and> pageRotations (fold (\<lambda>(p, d). rotatePage p d) [(1, 90), (1, 90), (2, - 90)]
         (new_PrivPDF :: unit app_state)) 2 = Some 270
   \<and> pageRotations (rotatePage 3 (- 90) (new_PrivPDF :: unit app_state)) 3 = Some 270
   \<and> quarter_turns (rotateAllPages [1, 2, 3] 90 (new_PrivPDF :: unit app_state))"
proof -
  have h1: "\<forall>(p, d) \<in> set [(1, 90), (1, 90), (2, - 90)]. d = 90 \<or> d = - (90::int)"
    by simp
  have h2: "quarter_turns (new_PrivPDF :: unit app_state)"
    by (simp add: quarter_turns_def new_PrivPDF_def)
  have v: "pageRotations (fold (\<lambda>(p, d). rotatePage p d) [(1, 90), (1, 90), (2, - 90)]
         (new_PrivPDF :: unit app_state)) 1 = Some 180"
    "pageRotations (fold (\<lambda>(p, d). rotatePage p d) [(1, 90), (1, 90), (2, - 90)]
         (new_PrivPDF :: unit app_state)) 2 = Some 270"
    by (simp_all add: rotatePage_def new_PrivPDF_def js_rem_def)
  note t = rotation_is_quarter_turn [OF h1 h2]
  have a: "quarter_turns (fold (\<lambda>(p, d). rotatePage p d) [(1, 90), (1, 90), (2, - 90)]
         (new_PrivPDF :: unit app_state))"
    unfolding quarter_turns_def by (rule t [THEN conjunct1])
  have "pageRotations (rotatePage 3 (- 90) (new_PrivPDF :: unit app_state)) 3 =
      Some (((case pageRotations (new_PrivPDF :: unit app_state) 3 of None \<Rightarrow> 0 | Some v \<Rightarrow> v)
               + (- 90) + 360) mod 360)"
    by (rule t [THEN conjunct2, THEN conjunct1, rule_format]) simp
  then have b: "pageRotations (rotatePage 3 (- 90) (new_PrivPDF :: unit app_state)) 3 = Some 270"
    by (simp add: new_PrivPDF_def)
  have c: "quarter_turns (rotateAllPages [1, 2, 3] 90 (new_PrivPDF :: unit app_state))"
    by (rule t [THEN conjunct2, THEN conjunct2, THEN conjunct1, rule_format]) simp
  show ?thesis
    using h2 a v b c by (intro conjI)
qed


section \<open>Page ranges\<close>

text \<open>
  \<^verbatim>\<open>PrivPDF.parsePageRange\<close>. A string is the list of its UTF-16 code units, so that
  \<^verbatim>\<open>trim\<close> and \<^verbatim>\<open>parseInt\<close> see the white space ECMAScript defines; \<open>str\<close> turns
  an ASCII literal into such a list.
\<close>

type_synonym jsstring = "nat list"

definition str :: "string \<Rightarrow> jsstring" where
  "str s = map of_char s"

definition is_white_space :: "nat \<Rightarrow> bool" where
  "is_white_space c \<longleftrightarrow>
     c \<in> {0x09, 0x0A, 0x0B, 0x0C, 0x0D, 0x20, 0xA0, 0x1680, 0x2028, 0x2029, 0x202F, 0x205F,
          0x3000, 0xFEFF}
     \<or> (0x2000 \<le> c \<and> c \<le> 0x200A)"

definition trimStart :: "jsstring \<Rightarrow> jsstring" where
  "trimStart s = dropWhile is_white_space s"

definition trim :: "jsstring \<Rightarrow> jsstring" where
  "trim s = rev (dropWhile is_white_space (rev (dropWhile is_white_space s)))"

fun split :: "nat \<Rightarrow> jsstring \<Rightarrow> jsstring list" where
  "split sep [] = [[]]"
| "split sep (c # cs) =
     (if c = sep then [] # split sep cs
      else (case split sep cs of
              [] \<Rightarrow> [[c]]
            | p # ps \<Rightarrow> (c # p) # ps))"

text \<open>
  A JavaScript number is a double. Every number \<^verbatim>\<open>parsePageRange\<close> computes comes from
  \<^verbatim>\<open>parseInt\<close>, \<^verbatim>\<open>- 1\<close>, \<^verbatim>\<open>++\<close> and \<^verbatim>\<open>Math.min\<close>, so it is a double that
  holds an integer (\<open>Finite v\<close>, with \<open>v\<close> that integer), an infinity, or NaN; minus zero
  is not told apart from zero, which subtraction of 1 and the comparisons do not tell
  apart either.

  \<open>to_double k\<close> is the double nearest to the integer \<open>k\<close>, ties to the even
  significand: \<open>k\<close> itself while \<open>\<bar>k\<bar> < 2^53\<close>; beyond, \<open>k\<close> rounded to 53 significant
  bits (\<open>bit_length\<close> counts the bits of \<open>k\<close>), and an infinity when the rounded value
  reaches \<open>2^1024\<close>. Subtraction and increment are the exact result, rounded; so
  \<open>2^53 + 1\<close> is \<open>2^53\<close> again, and \<^verbatim>\<open>i++\<close> no longer advances there. A comparison
  with NaN is false, and \<^verbatim>\<open>Math.min\<close> of NaN is NaN.
\<close>

datatype js_number = Finite int | PosInf | NegInf | NaN

function bit_length :: "int \<Rightarrow> nat" where
  "bit_length n = (if n \<le> 0 then 0 else Suc (bit_length (n div 2)))"
  by pat_completeness auto
termination
  by (relation "measure nat") auto

declare bit_length.simps [simp del]

definition round_to_double :: "int \<Rightarrow> int option" where
  "round_to_double n =
     (if n < 2 ^ 53 then Some n
      else (let e = bit_length n - 53;
                q = n div 2 ^ e;
                r = n mod 2 ^ e;
                half = 2 ^ (e - 1);
                q' = (if r > half \<or> (r = half \<and> odd q) then q + 1 else q);
                v = q' * 2 ^ e
            in if v \<ge> 2 ^ 1024 then None else Some v))"

definition to_double :: "int \<Rightarrow> js_number" where
  "to_double k =
     (case round_to_double \<bar>k\<bar> of
        None \<Rightarrow> if k < 0 then NegInf else PosInf
      | Some v \<Rightarrow> Finite (if k < 0 then - v else v))"

fun js_minus_one :: "js_number \<Rightarrow> js_number" where
  "js_minus_one (Finite v) = to_double (v - 1)"
| "js_minus_one x = x"

fun js_increment :: "js_number \<Rightarrow> js_number" where
  "js_increment (Finite v) = to_double (v + 1)"
| "js_increment x = x"

fun js_le :: "js_number \<Rightarrow> js_number \<Rightarrow> bool" where
  "js_le NaN y = False"
| "js_le x NaN = False"
| "js_le NegInf y = True"
| "js_le x PosInf = True"
| "js_le (Finite a) (Finite b) = (a \<le> b)"
| "js_le x y = False"

fun js_min :: "js_number \<Rightarrow> js_number \<Rightarrow> js_number" where
  "js_min NaN y = NaN"
| "js_min x NaN = NaN"
| "js_min NegInf y = NegInf"
| "js_min x NegInf = NegInf"
| "js_min PosInf y = y"
| "js_min x PosInf = x"
| "js_min (Finite a) (Finite b) = Finite (min a b)"

text \<open>
  \<^verbatim>\<open>parseInt\<close> with no radix: leading white space and one sign are skipped, a prefix
  \<open>0x\<close> or \<open>0X\<close> selects radix 16, and the longest prefix of digits is the value,
  rounded to a double; no digit at all gives NaN. The value is rounded from the exact
  integer; ECMAScript lets an engine approximate a decimal value after its 20th
  significant digit, which is far beyond \<open>2^53\<close>.
\<close>

definition digit_value :: "nat \<Rightarrow> nat option" where
  "digit_value c =
     (if 0x30 \<le> c \<and> c \<le> 0x39 then Some (c - 0x30)
      else if 0x61 \<le> c \<and> c \<le> 0x7A then Some (c - 0x61 + 10)
      else if 0x41 \<le> c \<and> c \<le> 0x5A then Some (c - 0x41 + 10)
      else None)"

definition is_radix_digit :: "nat \<Rightarrow> nat \<Rightarrow> bool" where
  "is_radix_digit R c = (case digit_value c of None \<Rightarrow> False | Some d \<Rightarrow> d < R)"

definition math_int :: "nat \<Rightarrow> jsstring \<Rightarrow> int" where
  "math_int R Z = foldl (\<lambda>acc c. acc * int R + int (the (digit_value c))) 0 Z"

definition parseInt :: "jsstring \<Rightarrow> js_number" where
  "parseInt inputString =
     (let S = trimStart inputString;
          sign = (if S \<noteq> [] \<and> hd S = 0x2D then - 1 else 1);
          S1 = (if S \<noteq> [] \<and> (hd S = 0x2B \<or> hd S = 0x2D) then tl S else S);
          hex = (length S1 \<ge> 2 \<and> (take 2 S1 = [0x30, 0x78] \<or> take 2 S1 = [0x30, 0x58]));
          S2 = (if hex then drop 2 S1 else S1);
          R = (if hex then 16 else 10);
          Z = takeWhile (is_radix_digit R) S2
      in if Z = [] then NaN else to_double (sign * math_int R Z))"

text \<open>
  \<^verbatim>\<open>if (i >= 0 && i < maxPage) pages.push(i)\<close>, for the loop variable of a range part
  and for the page of a single part. The page count \<open>maxPage\<close> is an integer.
\<close>

fun js_lt :: "js_number \<Rightarrow> js_number \<Rightarrow> bool" where
  "js_lt NaN y = False"
| "js_lt x NaN = False"
| "js_lt (Finite a) (Finite b) = (a < b)"
| "js_lt NegInf NegInf = False"
| "js_lt NegInf y = True"
| "js_lt PosInf y = False"
| "js_lt (Finite a) PosInf = True"
| "js_lt (Finite a) NegInf = False"

definition push_page :: "js_number \<Rightarrow> int \<Rightarrow> int list \<Rightarrow> int list" where
  "push_page i maxPage pages =
     (if js_le (Finite 0) i \<and> js_lt i (Finite maxPage)
      then (case i of Finite p \<Rightarrow> pages @ [p] | _ \<Rightarrow> pages)
      else pages)"

text \<open>
  The \<^verbatim>\<open>for\<close> loop of a range part, from \<open>i\<close> up to
  \<open>bound = Math.min(end, maxPage - 1)\<close>, with the array \<open>pages\<close> it pushes to. The loop
  need not come to an end, since \<^verbatim>\<open>i++\<close> can leave \<open>i\<close> as it is: \<open>range_loop\<close> is
  \<open>None\<close> then, and so are the part and the whole call, which return no list (the array
  grows for as long as the engine lets it). \<open>set_order\<close> is the iteration order of
  \<^verbatim>\<open>new Set(pages)\<close>: first occurrences, in insertion order.
\<close>

partial_function (option) range_loop ::
  "js_number \<Rightarrow> js_number \<Rightarrow> int \<Rightarrow> int list \<Rightarrow> int list option" where
  "range_loop i bound maxPage pages =
     (if js_le i bound
      then range_loop (js_increment i) bound maxPage (push_page i maxPage pages)
      else Some pages)"

definition part_pages :: "int \<Rightarrow> jsstring \<Rightarrow> int list option" where
  "part_pages maxPage part =
     (let trimmed = trim part
      in if 0x2D \<in> set trimmed
         then (case map (\<lambda>n. js_minus_one (parseInt (trim n))) (split 0x2D trimmed) of
                 start # end_page # _ \<Rightarrow>
                   range_loop start (js_min end_page (js_minus_one (Finite maxPage))) maxPage []
               | _ \<Rightarrow> Some [])
         else Some (push_page (js_minus_one (parseInt trimmed)) maxPage []))"

definition set_order :: "int list \<Rightarrow> int list" where
  "set_order xs = fold (\<lambda>x seen. if x \<in> set seen then seen else seen @ [x]) xs []"

definition parsePageRange :: "jsstring \<Rightarrow> int \<Rightarrow> int list option" where
  "parsePageRange range_str maxPage =
     (let parts = split 0x2C range_str
      in case those (map (part_pages maxPage) parts) of
           None \<Rightarrow> None
         | Some pushed \<Rightarrow> Some (sort (set_order (concat pushed))))"


subsection \<open>Rounding to a double\<close>



lemma round_to_double_exact: "n < 2 ^ 53 \<Longrightarrow> round_to_double n = Some n"
  by (simp add: round_to_double_def)





subsection \<open>Numbers without a sign\<close>





subsection \<open>The loop below \<open>2^53\<close>\<close>

lemma push_page_Finite:
  "push_page (Finite v) maxPage pages = (if 0 \<le> v \<and> v < maxPage then pages @ [v] else pages)"
  by (simp add: push_page_def)













subsection \<open>The parts of a range string\<close>

lemma part_pages_single:
  "0x2D \<notin> set (trim part) \<Longrightarrow>
   part_pages maxPage part = Some (push_page (js_minus_one (parseInt (trim part))) maxPage [])"
  by (simp add: part_pages_def Let_def)
















subsection \<open>Page counts beyond \<open>2^53\<close>\<close>


lemma bit_length_54: "bit_length 9007199254740992 = 54" "bit_length 9007199254740993 = 54"
  "bit_length 9007199254740995 = 54" "bit_length 9007199254740999 = 54"
  by (simp_all add: bit_length.simps)

lemma to_double_beyond:
  "to_double 9007199254740992 = Finite 9007199254740992"
  "to_double 9007199254740993 = Finite 9007199254740992"
  "to_double 9007199254740995 = Finite 9007199254740996"
  "to_double 9007199254740999 = Finite 9007199254741000"
  by (simp_all add: to_double_def round_to_double_def bit_length_54)

text \<open>
  Beyond \<open>2^53\<close>. \<^verbatim>\<open>parseInt\<close> rounds \<open>2^53 + 1\<close> to \<open>2^53\<close> and \<open>2^53 + 3\<close> to \<open>2^53 + 4\<close>,
  so that the single page \<open>9007199254740993\<close> of \<open>2^53 + 2\<close> pages is the index \<open>2^53 - 1\<close>.
\<close>

lemma digits_beyond:
  "str ''9007199254740993'' = [57, 48, 48, 55, 49, 57, 57, 50, 53, 52, 55, 52, 48, 57, 57, 51]"
  "str ''9007199254740995'' = [57, 48, 48, 55, 49, 57, 57, 50, 53, 52, 55, 52, 48, 57, 57, 53]"
  by (simp_all add: str_def)

lemma parseInt_beyond:
  "parseInt (str ''9007199254740993'') = Finite 9007199254740992"
  "parseInt (str ''9007199254740995'') = Finite 9007199254740996"
proof -
  let ?A = "str ''9007199254740993''" and ?B = "str ''9007199254740995''"
  have ts: "trimStart ?A = ?A" "trimStart ?B = ?B"
    unfolding digits_beyond by (simp_all add: trimStart_def is_white_space_def)
  have tw: "takeWhile (is_radix_digit 10) ?A = ?A" "takeWhile (is_radix_digit 10) ?B = ?B"
    unfolding digits_beyond by (simp_all add: is_radix_digit_def digit_value_def)
  have mi: "math_int 10 ?A = 9007199254740993" "math_int 10 ?B = 9007199254740995"
    unfolding digits_beyond by (simp_all add: math_int_def digit_value_def)
  have first: "?A \<noteq> [] \<and> hd ?A = 57 \<and> take 2 ?A = [57, 48]"
    "?B \<noteq> [] \<and> hd ?B = 57 \<and> take 2 ?B = [57, 48]"
    unfolding digits_beyond by simp_all
  show "parseInt ?A = Finite 9007199254740992"
    and "parseInt ?B = Finite 9007199254740996"
    by (simp_all add: parseInt_def Let_def ts first tw mi to_double_beyond)
qed

lemma trim_beyond:
  "trim (str ''9007199254740993'') = str ''9007199254740993''"
  "trim (str ''9007199254740995'') = str ''9007199254740995''"
  unfolding digits_beyond by (simp_all add: trim_def is_white_space_def)

lemma no_minus_beyond: "0x2D \<notin> set (str ''9007199254740993'')"
  unfolding digits_beyond by simp

lemma parsePageRange_rounds:
  "parsePageRange (str ''9007199254740993'') 9007199254740994 = Some [9007199254740991]"
proof -
  let ?A = "str ''9007199254740993''"
  have sp: "split 0x2C ?A = [?A]"
    unfolding digits_beyond by simp
  have m: "js_minus_one (Finite 9007199254740992) = Finite 9007199254740991"
    by (simp add: to_double_def round_to_double_def)
  have "part_pages 9007199254740994 ?A = Some [9007199254740991]"
    unfolding part_pages_single [of ?A, unfolded trim_beyond, OF no_minus_beyond]
      parseInt_beyond m
    by (simp add: push_page_Finite)
  then show ?thesis
    by (simp add: parsePageRange_def sp set_order_def)
qed


end
